theory Spec2Isabelle
  imports Main "HOL-Library.Word"
begin

unbundle bit_operations_syntax

text \<open>
  A shallow embedding of \<^verbatim>\<open>src/pybricksdev/run.py\<close>: the classes
  \<^verbatim>\<open>HubDataReceiver\<close> and \<^verbatim>\<open>PybricksHubConnection\<close>.
  The object is a record that every method takes and returns; an exception is an
  \<open>error\<close> value returned next to the object as the exception left it (Python mutates in
  place, so what a method did before it raised stays done); every call that has an
  effect outside the object appends an \<open>event\<close> to the trace \<open>events\<close>.
\<close>

section \<open>Bytes, strings and the UTF-8 decoder\<close>

text \<open>
  A Python \<^verbatim>\<open>bytes\<close> value is a list of 8-bit words, a Python \<^verbatim>\<open>str\<close> a
  list of code points. \<^verbatim>\<open>line.decode()\<close> is the strict UTF-8 decoder: \<open>utf8\<close>
  accepts exactly the well-formed byte sequences of the Unicode standard (no overlong
  forms, no surrogates, nothing above U+10FFFF) and \<open>None\<close> stands for
  \<^verbatim>\<open>UnicodeDecodeError\<close>.
\<close>

type_synonym byte = "8 word"
type_synonym bytes = "byte list"
type_synonym pystr = "nat list"

definition bytes_of :: "string \<Rightarrow> bytes" where
  "bytes_of cs = map of_char cs"

definition text_of :: "string \<Rightarrow> pystr" where
  "text_of cs = map of_char cs"

definition is_cont :: "nat \<Rightarrow> bool" where
  "is_cont c \<longleftrightarrow> 128 \<le> c \<and> c \<le> 191"

fun utf8 :: "nat list \<Rightarrow> pystr option" where
  "utf8 [] = Some []"
| "utf8 (b # bs) =
    (if b < 128 then map_option ((#) b) (utf8 bs)
     else if 194 \<le> b \<and> b \<le> 223 then
       (case bs of
          c1 # r \<Rightarrow>
            if is_cont c1
            then map_option ((#) ((b - 192) * 64 + (c1 - 128))) (utf8 r)
            else None
        | _ \<Rightarrow> None)
     else if 224 \<le> b \<and> b \<le> 239 then
       (case bs of
          c1 # c2 # r \<Rightarrow>
            if (if b = 224 then 160 else 128) \<le> c1 \<and> c1 \<le> (if b = 237 then 159 else 191)
               \<and> is_cont c2
            then map_option ((#) ((b - 224) * 4096 + (c1 - 128) * 64 + (c2 - 128))) (utf8 r)
            else None
        | _ \<Rightarrow> None)
     else if 240 \<le> b \<and> b \<le> 244 then
       (case bs of
          c1 # c2 # c3 # r \<Rightarrow>
            if (if b = 240 then 144 else 128) \<le> c1 \<and> c1 \<le> (if b = 244 then 143 else 191)
               \<and> is_cont c2 \<and> is_cont c3
            then map_option
                   ((#) ((b - 240) * 262144 + (c1 - 128) * 4096 + (c2 - 128) * 64 + (c3 - 128)))
                   (utf8 r)
            else None
        | _ \<Rightarrow> None)
     else None)"

definition decode :: "bytes \<Rightarrow> pystr option" where
  "decode line = utf8 (map unat line)"


text \<open>Python's \<^verbatim>\<open>pat in txt\<close> on strings: \<open>pat\<close> occurs as a contiguous run.\<close>

fun contains :: "'a list \<Rightarrow> 'a list \<Rightarrow> bool" where
  "contains pat [] = (pat = [])"
| "contains pat (x # xs) = (take (length pat) (x # xs) = pat \<or> contains pat xs)"

section \<open>The receiver\<close>

text \<open>The class constants \<^verbatim>\<open>UNKNOWN = 0 ... CHECKING = 4\<close>.\<close>

datatype hub_state = UNKNOWN | IDLE | RUNNING | ERROR | CHECKING

text \<open>
  The exceptions the code raises, by Python class, with the message where the code gives
  one. \<^verbatim>\<open>UnicodeDecodeError\<close> is a subclass of \<^verbatim>\<open>ValueError\<close>, which
  \<open>is_ValueError\<close> records: the dispatcher's \<^verbatim>\<open>except ValueError\<close> catches both.
  \<open>IndexError\<close> is \<^verbatim>\<open>data[-1]\<close> on an empty fragment, \<open>OverflowError\<close> is
  \<^verbatim>\<open>to_bytes\<close> on a length that does not fit four bytes.
\<close>

datatype error =
    ValueError string
  | OSError string
  | TimeoutError string
  | UnicodeDecodeError
  | IndexError
  | OverflowError

abbreviation ValueTooLarge :: error where
  "ValueTooLarge \<equiv> ValueError ''Cannot send this much data at once''"

abbreviation ChecksumMismatch :: error where
  "ChecksumMismatch \<equiv> ValueError ''Did not receive expected checksum.''"

abbreviation ChecksumTimeout :: error where
  "ChecksumTimeout \<equiv> TimeoutError ''Hub did not return checksum''"

abbreviation NoReply :: error where
  "NoReply \<equiv> OSError ''Did not receive reply.''"

abbreviation LogAlreadyOpen :: error where
  "LogAlreadyOpen \<equiv> OSError ''Log file is already open!''"

abbreviation NoLogOpen :: error where
  "NoLogOpen \<equiv> OSError ''No log file is currently open!''"

fun is_ValueError :: "error \<Rightarrow> bool" where
  "is_ValueError (ValueError _) = True"
| "is_ValueError UnicodeDecodeError = True"
| "is_ValueError _ = False"

text \<open>
  The trace. \<open>NewState\<close> is the record \<^verbatim>\<open>"New State: ..."\<close> of \<^verbatim>\<open>update_state\<close>,
  \<open>RX\<close> the record \<^verbatim>\<open>"RX: ..."\<close> of every extracted line, \<open>Checked\<close> the record
  \<^verbatim>\<open>"expected: ..., reply: ..."\<close> of \<^verbatim>\<open>send_message\<close>; \<open>Printed\<close> is
  \<^verbatim>\<open>print(text)\<close>; \<open>LogOpened\<close>, \<open>LogWrote\<close> and \<open>LogClosed\<close> are
  \<^verbatim>\<open>open(name, 'w')\<close>, \<^verbatim>\<open>print(text, file=self.log_file)\<close> and
  \<^verbatim>\<open>self.log_file.close()\<close>; \<open>Slept\<close> is \<^verbatim>\<open>asyncio.sleep\<close> with the time in
  milliseconds; \<open>Wrote\<close> is \<^verbatim>\<open>client.write_gatt_char\<close>. \<^verbatim>\<open>print\<close> ends what it
  writes with a newline (code point 10). The other log records of the code are left out.
  The standard output and a log file that is open are taken to accept everything
  written to them.
\<close>

datatype event =
    NewState hub_state
  | RX bytes
  | Printed pystr
  | LogOpened pystr
  | LogWrote pystr
  | LogClosed
  | Slept nat
  | Wrote bytes
  | Checked byte "byte option"

text \<open>
  The fields of \<^verbatim>\<open>HubDataReceiver\<close>: \<open>log_file\<close> holds the name of the open file.
  \<open>tick\<close> counts the suspension points (\<^verbatim>\<open>await\<close>) the connection has passed.
  \<open>fs\<close> is no field of the class: it is the host's file system as
  \<^verbatim>\<open>open(name, 'w')\<close> meets it, kept with the object so that every method has the
  world it runs in. For a name, \<open>fs\<close> gives the message of the \<^verbatim>\<open>OSError\<close> with which
  the system refuses to open it for writing (a directory that does not exist, a
  permission, a name that is a directory), or \<open>None\<close> when it opens the file.
\<close>

record receiver =
  buf :: bytes
  state :: hub_state
  reply :: "byte option"
  log_file :: "pystr option"
  events :: "event list"
  tick :: nat
  fs :: "pystr \<Rightarrow> string option"

text \<open>A new object, on a host whose file system refuses no name.\<close>

definition init_receiver :: receiver where
  "init_receiver =
     \<lparr>buf = [], state = UNKNOWN, reply = None, log_file = None, events = [], tick = 0,
      fs = (\<lambda>name. None)\<rparr>"

text \<open>
  \<^verbatim>\<open>open(name, 'w')\<close>: \<open>None\<close> when the file is opened, the exception otherwise. Two
  failures depend on the name alone: a name that holds the code point 0 raises a
  \<^verbatim>\<open>ValueError\<close> (embedded null byte) before the system is asked, and the empty name
  raises \<^verbatim>\<open>FileNotFoundError\<close>, an \<^verbatim>\<open>OSError\<close>. Every other name is up to the
  file system.
\<close>

definition open_w :: "receiver \<Rightarrow> pystr \<Rightarrow> error option" where
  "open_w s name =
     (if 0 \<in> set name then Some (ValueError ''embedded null byte'')
      else if name = [] then Some (OSError ''No such file or directory'')
      else map_option OSError (fs s name))"

definition emit :: "receiver \<Rightarrow> event \<Rightarrow> receiver" where
  "emit s e = s\<lparr>events := events s @ [e]\<rparr>"

definition process_line :: "receiver \<Rightarrow> bytes \<Rightarrow> error option \<times> receiver" where
  "process_line s line =
     (case decode line of
        None \<Rightarrow> (Some UnicodeDecodeError, s)
      | Some txt \<Rightarrow>
          if contains (text_of ''PB_OF'') txt then
            (if log_file s \<noteq> None then (Some LogAlreadyOpen, s)
             else (let name = drop 6 txt
                   in case open_w s name of
                        Some e \<Rightarrow> (Some e, s)
                      | None \<Rightarrow> (None, (emit s (LogOpened name))\<lparr>log_file := Some name\<rparr>)))
          else if contains (text_of ''PB_EOF'') txt then
            (if log_file s = None then (Some NoLogOpen, s)
             else (None, (emit s LogClosed)\<lparr>log_file := None\<rparr>))
          else if log_file s \<noteq> None then (None, emit s (LogWrote (txt @ [10])))
          else (None, emit s (Printed (txt @ [10]))))"

definition map_state :: "bytes \<Rightarrow> hub_state option" where
  "map_state line =
     (if line = bytes_of ''>>>> IDLE'' then Some IDLE
      else if line = bytes_of ''>>>> RUNNING'' then Some RUNNING
      else if line = bytes_of ''>>>> ERROR'' then Some ERROR
      else None)"

definition update_state :: "receiver \<Rightarrow> hub_state \<Rightarrow> receiver" where
  "update_state s new_state =
     (if new_state \<noteq> state s then (emit s (NewState new_state))\<lparr>state := new_state\<rparr>
      else s)"

definition update_state_disconnected :: "receiver \<Rightarrow> receiver" where
  "update_state_disconnected s = update_state s UNKNOWN"

text \<open>\<^verbatim>\<open>self.buf.index(b'\r\n')\<close>: the first position of CR LF, \<open>None\<close> for
  the \<^verbatim>\<open>ValueError\<close> of a buffer without one.\<close>

fun index_crlf :: "bytes \<Rightarrow> nat option" where
  "index_crlf (a # b # xs) =
     (if a = 13 \<and> b = 10 then Some 0 else map_option Suc (index_crlf (b # xs)))"
| "index_crlf _ = None"

text \<open>What the loop of \<^verbatim>\<open>update_data_buffer\<close> does with a line once it has cut it
  from the buffer: the record, the state update, \<^verbatim>\<open>process_line\<close>.\<close>

definition handle_line :: "receiver \<Rightarrow> bytes \<Rightarrow> error option \<times> receiver" where
  "handle_line s line =
     (let s1 = emit s (RX line);
          s2 = (case map_state line of Some st \<Rightarrow> update_state s1 st | None \<Rightarrow> s1)
      in process_line s2 line)"

lemma process_line_buf: "process_line s line = (r, s') \<Longrightarrow> buf s' = buf s"
  by (auto simp: process_line_def emit_def Let_def split: option.splits if_splits)

lemma handle_line_buf: "handle_line s line = (r, s') \<Longrightarrow> buf s' = buf s"
  by (auto simp: handle_line_def Let_def emit_def update_state_def
           dest!: process_line_buf split: option.splits)

lemma index_crlf_bound: "index_crlf b = Some i \<Longrightarrow> i + 2 \<le> length b"
  by (induction b arbitrary: i rule: index_crlf.induct) (auto split: if_splits)

text \<open>
  The \<^verbatim>\<open>while True\<close> loop of \<^verbatim>\<open>update_data_buffer\<close>. It ends when the buffer
  holds no CR LF, and also when \<^verbatim>\<open>process_line\<close> raises: a \<^verbatim>\<open>ValueError\<close> is caught
  by the loop's own handler, which leaves the loop; any other exception leaves the method.
  In both cases the line is already cut from the buffer.
\<close>

function lines_loop :: "receiver \<Rightarrow> error option \<times> receiver" where
  "lines_loop s =
     (case index_crlf (buf s) of
        None \<Rightarrow> (None, s)
      | Some index \<Rightarrow>
          (let line = take index (buf s);
               s1 = s\<lparr>buf := drop (index + 2) (buf s)\<rparr>
           in case handle_line s1 line of
                (Some e, s') \<Rightarrow> if is_ValueError e then (None, s') else (Some e, s')
              | (None, s') \<Rightarrow> lines_loop s'))"
  by pat_completeness auto
termination
proof (relation "measure (\<lambda>s. length (buf s))")
  show "wf (measure (\<lambda>s. length (buf s)))" by simp
next
  fix s index line s1 r s'
  assume "index_crlf (buf s) = Some index"
    and "s1 = s\<lparr>buf := drop (index + 2) (buf s)\<rparr>"
    and "(r, s') = handle_line s1 line"
  then show "(s', s) \<in> measure (\<lambda>s. length (buf s))"
    using handle_line_buf [of s1 line r s'] index_crlf_bound [of "buf s" index] by simp
qed

declare lines_loop.simps [simp del]

definition update_data_buffer :: "receiver \<Rightarrow> bytes \<Rightarrow> error option \<times> receiver" where
  "update_data_buffer s data =
     (if state s = CHECKING then
        (case data of
           [] \<Rightarrow> (Some IndexError, s)
         | _ \<Rightarrow> (None, s\<lparr>reply := Some (last data)\<rparr>))
      else lines_loop (s\<lparr>buf := buf s @ data\<rparr>))"

section \<open>Cooperative scheduling and the connection\<close>

text \<open>
  The coroutines of \<^verbatim>\<open>PybricksHubConnection\<close> run on one event loop with the two
  callbacks the connection registers: \<^verbatim>\<open>update_data_buffer\<close> for a notification and
  \<^verbatim>\<open>update_state_disconnected\<close>. A callback runs only while the coroutine is suspended
  at an \<^verbatim>\<open>await\<close>. The environment \<open>env\<close> gives, for the \<open>n\<close>-th suspension point,
  the callbacks that run there, in order. An exception a callback raises goes to the
  event loop, not to the coroutine: \<open>on_event\<close> keeps the object and drops the error.
  The transport's own failures are not modelled: \<^verbatim>\<open>write_gatt_char\<close> returns.
\<close>

datatype inbound = Notify bytes | Disconnected

type_synonym env = "nat \<Rightarrow> inbound list"

fun on_event :: "receiver \<Rightarrow> inbound \<Rightarrow> receiver" where
  "on_event s (Notify data) = snd (update_data_buffer s data)"
| "on_event s Disconnected = update_state_disconnected s"

definition suspend :: "env \<Rightarrow> receiver \<Rightarrow> receiver" where
  "suspend env s = fold (\<lambda>e s'. on_event s' e) (env (tick s)) (s\<lparr>tick := Suc (tick s)\<rparr>)"

definition sleep :: "nat \<Rightarrow> env \<Rightarrow> receiver \<Rightarrow> receiver" where
  "sleep ms env s = suspend env (emit s (Slept ms))"

definition write_gatt_char :: "env \<Rightarrow> receiver \<Rightarrow> bytes \<Rightarrow> receiver" where
  "write_gatt_char env s chunk = suspend env (emit s (Wrote chunk))"

text \<open>\<^verbatim>\<open>[data[i: i + n] for i in range(0, len(data), n)]\<close>\<close>

function chunks :: "nat \<Rightarrow> 'a list \<Rightarrow> 'a list list" where
  "chunks n data = (if n = 0 \<or> data = [] then [] else take n data # chunks n (drop n data))"
  by pat_completeness auto
termination
  by (relation "measure (\<lambda>(n, data). length data)") auto

declare chunks.simps [simp del]

fun write_chunks :: "env \<Rightarrow> receiver \<Rightarrow> bytes list \<Rightarrow> receiver" where
  "write_chunks env s [] = s"
| "write_chunks env s (chunk # rest) =
     write_chunks env (write_gatt_char env (sleep 50 env s) chunk) rest"

text \<open>The method \<^verbatim>\<open>write\<close>.\<close>

definition write_bytes :: "env \<Rightarrow> receiver \<Rightarrow> bytes \<Rightarrow> receiver" where
  "write_bytes env s data = write_chunks env s (chunks 20 data)"

definition xor_fold :: "bytes \<Rightarrow> byte" where
  "xor_fold data = fold (\<lambda>b checksum. checksum XOR b) data 0"

text \<open>
  The \<^verbatim>\<open>for i in range(50)\<close> loop of \<^verbatim>\<open>wait_for_checksum\<close>, with the number of
  polls left. What it returns is the field \<^verbatim>\<open>self.reply\<close> as it read it, a value that
  Python lets be \<^verbatim>\<open>None\<close>.
\<close>

fun checksum_polls :: "env \<Rightarrow> nat \<Rightarrow> receiver \<Rightarrow> (error + byte option) \<times> receiver" where
  "checksum_polls env 0 s = (Inl ChecksumTimeout, s)"
| "checksum_polls env (Suc n) s =
     (let s1 = sleep 10 env s
      in if reply s1 \<noteq> None
         then (Inr (reply s1), update_state (s1\<lparr>reply := None\<rparr>) IDLE)
         else checksum_polls env n s1)"

definition wait_for_checksum :: "env \<Rightarrow> receiver \<Rightarrow> (error + byte option) \<times> receiver" where
  "wait_for_checksum env s = checksum_polls env 50 (update_state s CHECKING)"

definition send_message :: "env \<Rightarrow> receiver \<Rightarrow> bytes \<Rightarrow> error option \<times> receiver" where
  "send_message env s data =
     (if length data > 100 then (Some ValueTooLarge, s)
      else
        (let checksum = xor_fold data;
             s1 = write_bytes env s data
         in case wait_for_checksum env s1 of
              (Inl e, s2) \<Rightarrow> (Some e, s2)
            | (Inr r, s2) \<Rightarrow>
                (let s3 = emit s2 (Checked checksum r)
                 in case r of
                      None \<Rightarrow> (Some NoReply, s3)
                    | Some v \<Rightarrow>
                        if checksum \<noteq> v then (Some ChecksumMismatch, s3) else (None, s3))))"

text \<open>The \<^verbatim>\<open>while True\<close> loop of \<^verbatim>\<open>wait_until_not_running\<close> has no bound:
  \<open>None\<close> is the loop that never ends.\<close>

partial_function (option) not_running_loop :: "env \<Rightarrow> receiver \<Rightarrow> receiver option" where
  "not_running_loop env s =
     (let s1 = sleep 100 env s
      in if state s1 \<noteq> RUNNING then Some s1 else not_running_loop env s1)"

definition wait_until_not_running :: "env \<Rightarrow> receiver \<Rightarrow> receiver option" where
  "wait_until_not_running env s = not_running_loop env (sleep 500 env s)"

text \<open>\<^verbatim>\<open>len(mpy).to_bytes(4, byteorder='little')\<close>\<close>

definition to_bytes :: "nat \<Rightarrow> error + bytes" where
  "to_bytes n =
     (if n < 2 ^ 32
      then Inr [of_nat n, of_nat (n div 256), of_nat (n div 65536), of_nat (n div 16777216)]
      else Inl OverflowError)"

text \<open>The \<^verbatim>\<open>for i, chunk in enumerate(chunks)\<close> loop of \<^verbatim>\<open>download_and_run\<close>.\<close>

fun send_chunks :: "env \<Rightarrow> receiver \<Rightarrow> bytes list \<Rightarrow> error option \<times> receiver" where
  "send_chunks env s [] = (None, s)"
| "send_chunks env s (chunk # rest) =
     (case send_message env s chunk of
        (Some e, s') \<Rightarrow> (Some e, s')
      | (None, s') \<Rightarrow> send_chunks env s' rest)"

definition download_and_run ::
    "env \<Rightarrow> receiver \<Rightarrow> bytes \<Rightarrow> (error option \<times> receiver) option" where
  "download_and_run env s mpy =
     (case to_bytes (length mpy) of
        Inl e \<Rightarrow> Some (Some e, s)
      | Inr len \<Rightarrow>
          (case send_message env s len of
             (Some e, s1) \<Rightarrow> Some (Some e, s1)
           | (None, s1) \<Rightarrow>
               (case send_chunks env s1 (chunks 100 mpy) of
                  (Some e, s2) \<Rightarrow> Some (Some e, s2)
                | (None, s2) \<Rightarrow> map_option (Pair None) (wait_until_not_running env s2))))"

section \<open>Traces and the specification's functions\<close>

text \<open>
  What the theorems below say about a trace, and what they compare the code with.
  \<open>transfer_trace\<close> keeps the events of the sending side: the pacing and polling
  sleeps, the transport writes, the checksum comparisons and the entry into
  \<open>CHECKING\<close>. \<open>dispatch_frame s s'\<close> is what every callback keeps: the count of
  suspension points and the sending side's events; and, from a connection outside
  \<open>CHECKING\<close>, that it stays outside and that the reply slot is not touched.
  \<open>paced_writes\<close> is the trace of \<^verbatim>\<open>write\<close>: before every transport write, the
  50 ms sleep.
\<close>

fun is_transfer :: "event \<Rightarrow> bool" where
  "is_transfer (Slept _) = True"
| "is_transfer (Wrote _) = True"
| "is_transfer (Checked _ _) = True"
| "is_transfer (NewState st) = (st = CHECKING)"
| "is_transfer _ = False"

definition transfer_trace :: "event list \<Rightarrow> event list" where
  "transfer_trace evs = filter is_transfer evs"

definition dispatch_frame :: "receiver \<Rightarrow> receiver \<Rightarrow> bool" where
  "dispatch_frame s s' \<longleftrightarrow>
     tick s' = tick s \<and> transfer_trace (events s') = transfer_trace (events s) \<and>
     (state s \<noteq> CHECKING \<longrightarrow> state s' \<noteq> CHECKING \<and> reply s' = reply s)"

definition paced_writes :: "bytes list \<Rightarrow> event list" where
  "paced_writes cs = concat (map (\<lambda>c. [Slept 50, Wrote c]) cs)"

text \<open>Whether a trace enters \<open>CHECKING\<close> before its first transport write.\<close>

fun checking_before_writes :: "event list \<Rightarrow> bool" where
  "checking_before_writes [] = False"
| "checking_before_writes (NewState CHECKING # es) = True"
| "checking_before_writes (Wrote c # es) = False"
| "checking_before_writes (e # es) = checking_before_writes es"

text \<open>
  The specification's reading of the inbound stream, to compare the dispatcher with:
  \<open>split_lines\<close> are the lines of a byte sequence that CR LF terminates, in order, each
  ending at the first CR LF after its start; \<open>remainder\<close> is what follows the last of
  them; \<open>feed_lines\<close> hands lines to the line handler one after the other and stops at
  the first exception, whatever its class. \<open>deliver\<close> is the dispatcher receiving
  fragments one notification after the other, and \<open>rx_lines\<close> are the lines a trace
  records as extracted.
\<close>

function split_lines :: "bytes \<Rightarrow> bytes list" where
  "split_lines b =
     (case index_crlf b of
        None \<Rightarrow> []
      | Some i \<Rightarrow> take i b # split_lines (drop (i + 2) b))"
  by pat_completeness auto
termination
  by (relation "measure length") (auto dest: index_crlf_bound)

function remainder :: "bytes \<Rightarrow> bytes" where
  "remainder b =
     (case index_crlf b of
        None \<Rightarrow> b
      | Some i \<Rightarrow> remainder (drop (i + 2) b))"
  by pat_completeness auto
termination
  by (relation "measure length") (auto dest: index_crlf_bound)

declare split_lines.simps [simp del] remainder.simps [simp del]

fun feed_lines :: "receiver \<Rightarrow> bytes list \<Rightarrow> error option \<times> receiver" where
  "feed_lines s [] = (None, s)"
| "feed_lines s (line # rest) =
     (case handle_line s line of
        (Some e, s') \<Rightarrow> (Some e, s')
      | (None, s') \<Rightarrow> feed_lines s' rest)"

definition deliver :: "receiver \<Rightarrow> bytes list \<Rightarrow> receiver" where
  "deliver s frags = fold (\<lambda>d s'. on_event s' (Notify d)) frags s"

definition rx_lines :: "event list \<Rightarrow> bytes list" where
  "rx_lines evs = concat (map (\<lambda>e. case e of RX line \<Rightarrow> [line] | _ \<Rightarrow> []) evs)"

text \<open>\<open>state_changes\<close> are the Status changes a trace records, in order.
  \<open>process_lines\<close> hands successive lines to \<open>process_line\<close> and stops at the first
  exception.\<close>

definition state_changes :: "event list \<Rightarrow> hub_state list" where
  "state_changes evs = concat (map (\<lambda>e. case e of NewState st \<Rightarrow> [st] | _ \<Rightarrow> []) evs)"

fun process_lines :: "receiver \<Rightarrow> bytes list \<Rightarrow> error option \<times> receiver" where
  "process_lines s [] = (None, s)"
| "process_lines s (line # rest) =
     (case process_line s line of
        (Some e, s') \<Rightarrow> (Some e, s')
      | (None, s') \<Rightarrow> process_lines s' rest)"

abbreviation open_marker :: pystr where
  "open_marker \<equiv> text_of ''PB_OF''"

abbreviation close_marker :: pystr where
  "close_marker \<equiv> text_of ''PB_EOF''"

text \<open>
  \<open>wire\<close> keeps the transport writes and the checksum comparisons of a trace;
  \<open>msg_wire m\<close> is what a message that is acknowledged leaves there: its transport
  chunks, then the comparison of the reply with the checksum, equal. \<open>le_value\<close> reads
  bytes as a little-endian number. \<open>echoes env t ms\<close> says that the environment, from
  suspension point \<open>t\<close> on, answers each message \<open>m\<close> of \<open>ms\<close> in turn with a one-byte
  fragment holding its checksum, during the poll \<open>k\<close> paired with \<open>m\<close>, and delivers
  nothing else while it waits.
\<close>

fun is_wire :: "event \<Rightarrow> bool" where
  "is_wire (Wrote _) = True"
| "is_wire (Checked _ _) = True"
| "is_wire _ = False"

definition wire :: "event list \<Rightarrow> event list" where
  "wire evs = filter is_wire evs"

definition msg_wire :: "bytes \<Rightarrow> event list" where
  "msg_wire m = map Wrote (chunks 20 m) @ [Checked (xor_fold m) (Some (xor_fold m))]"

definition le_value :: "bytes \<Rightarrow> nat" where
  "le_value bs = foldr (\<lambda>b n. unat b + 256 * n) bs 0"

fun echoes :: "env \<Rightarrow> nat \<Rightarrow> (bytes \<times> nat) list \<Rightarrow> bool" where
  "echoes env t [] = True"
| "echoes env t ((m, k) # rest) =
     (k < 50 \<and>
      (\<forall>i<k. env (t + 2 * length (chunks 20 m) + i) = []) \<and>
      env (t + 2 * length (chunks 20 m) + k) = [Notify [xor_fold m]] \<and>
      echoes env (t + 2 * length (chunks 20 m) + Suc k) rest)"

text \<open>\<open>end_tick t ms\<close> is the suspension point at which the last of the messages
  \<open>ms\<close>, sent from \<open>t\<close> on and answered as \<open>echoes\<close> says, has been acknowledged.\<close>

fun end_tick :: "nat \<Rightarrow> (bytes \<times> nat) list \<Rightarrow> nat" where
  "end_tick t [] = t"
| "end_tick t ((m, k) # rest) = end_tick (t + 2 * length (chunks 20 m) + Suc k) rest"

text \<open>An environment that answers four messages, at the suspension points 2, 13, 24
  and 31, and is silent otherwise.\<close>

definition echo_250 :: env where
  "echo_250 t =
     (if t = 2 then [Notify [250]]
      else if t = 13 \<or> t = 24 \<or> t = 31 then [Notify [0]]
      else [])"

section \<open>What the callbacks leave alone\<close>

text \<open>
  No callback produces an event of the sending side, whatever it receives; and a
  callback that finds the connection outside \<open>CHECKING\<close> leaves it outside and does
  not touch the reply slot.
\<close>

lemma emit_fields [simp]:
  "buf (emit s e) = buf s" "state (emit s e) = state s" "reply (emit s e) = reply s"
  "log_file (emit s e) = log_file s" "tick (emit s e) = tick s" "fs (emit s e) = fs s"
  "events (emit s e) = events s @ [e]"
  by (simp_all add: emit_def)

lemma update_state_fields [simp]:
  "buf (update_state s t) = buf s" "state (update_state s t) = t"
  "reply (update_state s t) = reply s" "log_file (update_state s t) = log_file s"
  "tick (update_state s t) = tick s" "fs (update_state s t) = fs s"
  "events (update_state s t) = events s @ (if t = state s then [] else [NewState t])"
  by (simp_all add: update_state_def)

lemma open_w_simps [simp]:
  "open_w (s\<lparr>buf := b\<rparr>) name = open_w s name"
  "open_w (emit s e) name = open_w s name"
  "open_w (update_state s t) name = open_w s name"
  by (simp_all add: open_w_def)

lemma dispatch_frame_refl [simp]: "dispatch_frame s s"
  by (simp add: dispatch_frame_def)

lemma dispatch_frame_trans:
  "dispatch_frame s s' \<Longrightarrow> dispatch_frame s' s'' \<Longrightarrow> dispatch_frame s s''"
  by (auto simp: dispatch_frame_def)

lemma map_state_not_CHECKING: "map_state line \<noteq> Some CHECKING"
  by (simp add: map_state_def)

lemma process_line_frame: "dispatch_frame s (snd (process_line s line))"
  by (auto simp: process_line_def dispatch_frame_def transfer_trace_def Let_def
           split: option.splits)

lemma handle_line_frame: "dispatch_frame s (snd (handle_line s line))"
proof -
  let ?s1 = "emit s (RX line)"
  let ?s2 = "case map_state line of Some st \<Rightarrow> update_state ?s1 st | None \<Rightarrow> ?s1"
  have "dispatch_frame s ?s2"
    using map_state_not_CHECKING [of line]
    by (auto simp: dispatch_frame_def transfer_trace_def split: option.splits)
  moreover have "dispatch_frame ?s2 (snd (process_line ?s2 line))"
    by (rule process_line_frame)
  ultimately show ?thesis
    unfolding handle_line_def Let_def by (rule dispatch_frame_trans)
qed

lemma dispatch_frame_buf [simp]: "dispatch_frame (s\<lparr>buf := b\<rparr>) s' = dispatch_frame s s'"
  by (simp add: dispatch_frame_def)

lemma lines_loop_frame: "dispatch_frame s (snd (lines_loop s))"
proof (induction s rule: lines_loop.induct)
  case (1 s)
  show ?case
  proof (cases "index_crlf (buf s)")
    case None
    then show ?thesis by (simp add: lines_loop.simps [of s])
  next
    case (Some index)
    let ?s1 = "s\<lparr>buf := drop (index + 2) (buf s)\<rparr>"
    let ?line = "take index (buf s)"
    obtain r s' where h: "handle_line ?s1 ?line = (r, s')" by (cases "handle_line ?s1 ?line")
    have f: "dispatch_frame s s'"
      using handle_line_frame [of ?s1 ?line] h by simp
    show ?thesis
    proof (cases r)
      case None
      have "dispatch_frame s' (snd (lines_loop s'))"
        using "1.IH" [OF Some refl refl h [symmetric] None] .
      with f have "dispatch_frame s (snd (lines_loop s'))" by (rule dispatch_frame_trans)
      then show ?thesis using Some h None by (simp add: lines_loop.simps [of s])
    next
      case (Some e)
      then show ?thesis using \<open>index_crlf (buf s) = Some index\<close> h f
        by (simp add: lines_loop.simps [of s])
    qed
  qed
qed

lemma on_event_frame: "dispatch_frame s (on_event s e)"
proof (cases e)
  case (Notify data)
  show ?thesis
  proof (cases "state s = CHECKING")
    case True
    then show ?thesis using Notify
      by (auto simp: update_data_buffer_def dispatch_frame_def split: list.splits)
  next
    case False
    then show ?thesis using Notify lines_loop_frame [of "s\<lparr>buf := buf s @ data\<rparr>"]
      by (simp add: update_data_buffer_def)
  qed
next
  case Disconnected
  then show ?thesis
    by (simp add: update_state_disconnected_def dispatch_frame_def transfer_trace_def)
qed

lemma fold_on_event_frame: "dispatch_frame s (fold (\<lambda>e s'. on_event s' e) es s)"
proof (induction es arbitrary: s)
  case Nil
  show ?case by simp
next
  case (Cons e es)
  show ?case using dispatch_frame_trans [OF on_event_frame Cons.IH] by simp
qed

section \<open>Suspension points, pacing and polling\<close>

lemma suspend_tick [simp]: "tick (suspend env s) = Suc (tick s)"
  using fold_on_event_frame [of "s\<lparr>tick := Suc (tick s)\<rparr>" "env (tick s)"]
  by (simp add: suspend_def dispatch_frame_def)

lemma suspend_trace [simp]:
  "transfer_trace (events (suspend env s)) = transfer_trace (events s)"
  using fold_on_event_frame [of "s\<lparr>tick := Suc (tick s)\<rparr>" "env (tick s)"]
  by (simp add: suspend_def dispatch_frame_def)

lemma suspend_not_CHECKING:
  "state s \<noteq> CHECKING \<Longrightarrow> state (suspend env s) \<noteq> CHECKING \<and> reply (suspend env s) = reply s"
  using fold_on_event_frame [of "s\<lparr>tick := Suc (tick s)\<rparr>" "env (tick s)"]
  by (simp add: suspend_def dispatch_frame_def)

lemma suspend_silent: "env (tick s) = [] \<Longrightarrow> suspend env s = s\<lparr>tick := Suc (tick s)\<rparr>"
  by (simp add: suspend_def)

lemma suspend_reply:
  "state s = CHECKING \<Longrightarrow> env (tick s) = [Notify d] \<Longrightarrow> d \<noteq> [] \<Longrightarrow>
   suspend env s = s\<lparr>reply := Some (last d), tick := Suc (tick s)\<rparr>"
  by (cases d) (simp_all add: suspend_def update_data_buffer_def)

lemma transfer_trace_append [simp]:
  "transfer_trace (xs @ ys) = transfer_trace xs @ transfer_trace ys"
  by (simp add: transfer_trace_def)

lemma transfer_trace_simps [simp]:
  "transfer_trace [] = []"
  "transfer_trace (e # es) = (if is_transfer e then e # transfer_trace es else transfer_trace es)"
  by (simp_all add: transfer_trace_def)

lemma sleep_tick [simp]: "tick (sleep ms env s) = Suc (tick s)"
  by (simp add: sleep_def)

lemma sleep_trace [simp]:
  "transfer_trace (events (sleep ms env s)) = transfer_trace (events s) @ [Slept ms]"
  by (simp add: sleep_def)

lemma sleep_not_CHECKING:
  "state s \<noteq> CHECKING \<Longrightarrow> state (sleep ms env s) \<noteq> CHECKING \<and> reply (sleep ms env s) = reply s"
  using suspend_not_CHECKING [of "emit s (Slept ms)" env] by (simp add: sleep_def)

lemma write_gatt_char_tick [simp]: "tick (write_gatt_char env s c) = Suc (tick s)"
  by (simp add: write_gatt_char_def)

lemma write_gatt_char_trace [simp]:
  "transfer_trace (events (write_gatt_char env s c)) = transfer_trace (events s) @ [Wrote c]"
  by (simp add: write_gatt_char_def)

lemma write_gatt_char_not_CHECKING:
  "state s \<noteq> CHECKING \<Longrightarrow>
   state (write_gatt_char env s c) \<noteq> CHECKING \<and> reply (write_gatt_char env s c) = reply s"
  using suspend_not_CHECKING [of "emit s (Wrote c)" env] by (simp add: write_gatt_char_def)

lemma write_chunks_tick [simp]: "tick (write_chunks env s cs) = tick s + 2 * length cs"
  by (induction cs arbitrary: s) simp_all

lemma write_chunks_trace [simp]:
  "transfer_trace (events (write_chunks env s cs)) = transfer_trace (events s) @ paced_writes cs"
  by (induction cs arbitrary: s) (simp_all add: paced_writes_def)

lemma write_chunks_not_CHECKING:
  "state s \<noteq> CHECKING \<Longrightarrow>
   state (write_chunks env s cs) \<noteq> CHECKING \<and> reply (write_chunks env s cs) = reply s"
proof (induction cs arbitrary: s)
  case Nil
  then show ?case by simp
next
  case (Cons c cs)
  let ?s' = "write_gatt_char env (sleep 50 env s) c"
  have "state ?s' \<noteq> CHECKING \<and> reply ?s' = reply s"
    using sleep_not_CHECKING [OF Cons.prems, of 50 env]
      write_gatt_char_not_CHECKING [of "sleep 50 env s" env c] by simp
  then show ?case using Cons.IH [of ?s'] by simp
qed

lemma sleep_silent:
  "env (tick s) = [] \<Longrightarrow>
   sleep ms env s = s\<lparr>events := events s @ [Slept ms], tick := Suc (tick s)\<rparr>"
  by (simp add: sleep_def suspend_silent emit_def)

lemma sleep_reply:
  "state s = CHECKING \<Longrightarrow> env (tick s) = [Notify d] \<Longrightarrow> d \<noteq> [] \<Longrightarrow>
   sleep ms env s =
     s\<lparr>reply := Some (last d), events := events s @ [Slept ms], tick := Suc (tick s)\<rparr>"
  using suspend_reply [of "emit s (Slept ms)" env d] by (simp add: sleep_def emit_def)

lemma checksum_polls_timeout:
  "reply s = None \<Longrightarrow> \<forall>i<n. env (tick s + i) = [] \<Longrightarrow>
   checksum_polls env n s =
     (Inl ChecksumTimeout, s\<lparr>events := events s @ replicate n (Slept 10), tick := tick s + n\<rparr>)"
proof (induction n arbitrary: s)
  case 0
  then show ?case by simp
next
  case (Suc n)
  let ?s1 = "s\<lparr>events := events s @ [Slept 10], tick := Suc (tick s)\<rparr>"
  have "env (tick s) = []" using Suc.prems(2) [rule_format, of 0] by simp
  then have s1: "sleep 10 env s = ?s1" by (rule sleep_silent)
  have "\<forall>i<n. env (tick ?s1 + i) = []"
    using Suc.prems(2) by (auto dest: spec [of _ "Suc i" for i])
  with Suc.IH [of ?s1] Suc.prems(1) s1 show ?case
    by (simp add: replicate_append_same)
qed

lemma checksum_polls_reply:
  "state s = CHECKING \<Longrightarrow> reply s = None \<Longrightarrow> k < n \<Longrightarrow> \<forall>i<k. env (tick s + i) = [] \<Longrightarrow>
   env (tick s + k) = [Notify d] \<Longrightarrow> d \<noteq> [] \<Longrightarrow>
   checksum_polls env n s =
     (Inr (Some (last d)),
      s\<lparr>state := IDLE,
        events := events s @ replicate (Suc k) (Slept 10) @ [NewState IDLE],
        tick := tick s + Suc k\<rparr>)"
proof (induction k arbitrary: s n)
  case 0
  then obtain m where n: "n = Suc m" by (cases n) auto
  show ?case using 0 sleep_reply [of s env d 10]
    by (simp add: n update_state_def emit_def)
next
  case (Suc k)
  then obtain m where n: "n = Suc m" by (cases n) auto
  let ?s1 = "s\<lparr>events := events s @ [Slept 10], tick := Suc (tick s)\<rparr>"
  have "env (tick s) = []" using Suc.prems(4) [rule_format, of 0] by simp
  then have s1: "sleep 10 env s = ?s1" by (rule sleep_silent)
  have "\<forall>i<k. env (tick ?s1 + i) = []"
    using Suc.prems(4) by (auto dest: spec [of _ "Suc i" for i])
  moreover have "env (tick ?s1 + k) = [Notify d]" using Suc.prems(5) by simp
  ultimately show ?case
    using Suc.IH [of ?s1 m] Suc.prems(1,2,3,6) s1
    by (simp add: n replicate_append_same)
qed

lemma checksum_polls_never_None: "fst (checksum_polls env n s) \<noteq> Inr None"
  by (induction n arbitrary: s) (simp_all add: Let_def)

section \<open>Chunking, the checksum and the outcomes of \<open>send_message\<close>\<close>

lemma chunks_Nil [simp]: "chunks n [] = []"
  by (simp add: chunks.simps)

lemma chunks_single: "data \<noteq> [] \<Longrightarrow> length data \<le> n \<Longrightarrow> chunks n data = [data]"
  by (subst chunks.simps) (cases data; auto)

lemma chunks_bound: "c \<in> set (chunks n data) \<Longrightarrow> 0 < length c \<and> length c \<le> n"
proof (induction n data rule: chunks.induct)
  case (1 n data)
  show ?case
  proof (cases "n = 0 \<or> data = []")
    case True
    then show ?thesis using "1.prems" by (simp add: chunks.simps [of n data])
  next
    case False
    then have "c = take n data \<or> c \<in> set (chunks n (drop n data))"
      using "1.prems" by (simp add: chunks.simps [of n data])
    then show ?thesis using "1.IH" [OF False] False by auto
  qed
qed

lemma concat_chunks: "0 < n \<Longrightarrow> concat (chunks n data) = data"
proof (induction n data rule: chunks.induct)
  case (1 n data)
  show ?case
  proof (cases "data = []")
    case True
    then show ?thesis by simp
  next
    case False
    then show ?thesis using "1.IH" "1.prems" by (simp add: chunks.simps [of n data])
  qed
qed

lemma length_chunks:
  "0 < n \<Longrightarrow>
   map length (chunks n data) =
     replicate (length data div n) n @ (if length data mod n = 0 then [] else [length data mod n])"
proof (induction n data rule: chunks.induct)
  case (1 n data)
  show ?case
  proof (cases "data = []")
    case True
    then show ?thesis by simp
  next
    case False
    note ne = False
    show ?thesis
    proof (cases "length data < n")
      case True
      then have "chunks n data = [data]" using ne by (simp add: chunks_single)
      then show ?thesis using True ne by simp
    next
      case False
      then have ge: "n \<le> length data" by simp
      have d: "length data div n = Suc ((length data - n) div n)"
        using ge "1.prems" by (simp add: le_div_geq)
      have m: "length data mod n = (length data - n) mod n"
        using ge by (simp add: le_mod_geq)
      have "map length (chunks n data) = n # map length (chunks n (drop n data))"
        using ne "1.prems" ge by (simp add: chunks.simps [of n data])
      also have "map length (chunks n (drop n data)) =
          replicate ((length data - n) div n) n @
          (if (length data - n) mod n = 0 then [] else [(length data - n) mod n])"
        using "1.IH" ne "1.prems" by simp
      finally show ?thesis by (simp add: d m)
    qed
  qed
qed

lemma xor_fold_acc: "fold (\<lambda>b checksum. checksum XOR b) data a = a XOR xor_fold data"
  unfolding xor_fold_def
proof (induction data arbitrary: a)
  case Nil
  show ?case by simp
next
  case (Cons b data)
  show ?case using Cons.IH [of "a XOR b"] Cons.IH [of b] by (simp add: ac_simps)
qed

lemma xor_fold_simps [simp]:
  "xor_fold [] = 0" "xor_fold (b # data) = b XOR xor_fold data"
  using xor_fold_acc [of data b] by (simp_all add: xor_fold_def)

lemma send_message_cases:
  assumes "length data \<le> 100"
    and "wait_for_checksum env (write_bytes env s data) = (w, s2)"
  shows "send_message env s data =
     (case w of
        Inl e \<Rightarrow> (Some e, s2)
      | Inr r \<Rightarrow>
          (if r = None then Some NoReply
           else if r = Some (xor_fold data) then None else Some ChecksumMismatch,
           emit s2 (Checked (xor_fold data) r)))"
  using assms by (auto simp: send_message_def Let_def split: sum.splits option.splits)

lemma checksum_polls_trace:
  "\<exists>j\<le>n. transfer_trace (events (snd (checksum_polls env n s))) =
     transfer_trace (events s) @ replicate j (Slept 10)"
proof (induction n arbitrary: s)
  case 0
  show ?case by simp
next
  case (Suc n)
  let ?s1 = "sleep 10 env s"
  show ?case
  proof (cases "reply ?s1 = None")
    case True
    from Suc.IH [of ?s1] obtain j where "j \<le> n"
      "transfer_trace (events (snd (checksum_polls env n ?s1))) =
         transfer_trace (events ?s1) @ replicate j (Slept 10)" by blast
    then show ?thesis using True
      by (intro exI [of _ "Suc j"]) (simp add: Let_def)
  next
    case False
    then show ?thesis
      by (intro exI [of _ "Suc 0"]) (auto simp: Let_def)
  qed
qed

lemma checksum_polls_result:
  "checksum_polls env n s = (w, s') \<Longrightarrow>
   (case w of Inl e \<Rightarrow> e = ChecksumTimeout
    | Inr r \<Rightarrow> r \<noteq> None \<and> state s' = IDLE \<and> reply s' = None)"
proof (induction n arbitrary: s)
  case 0
  then show ?case by auto
next
  case (Suc n)
  then show ?case by (auto simp: Let_def split: if_splits)
qed

section \<open>A message that is acknowledged\<close>

lemma write_bytes_facts:
  "tick (write_bytes env s data) = tick s + 2 * length (chunks 20 data)"
  "transfer_trace (events (write_bytes env s data)) =
     transfer_trace (events s) @ paced_writes (chunks 20 data)"
  by (simp_all add: write_bytes_def)

lemma write_bytes_not_CHECKING:
  "state s \<noteq> CHECKING \<Longrightarrow>
   state (write_bytes env s data) \<noteq> CHECKING \<and> reply (write_bytes env s data) = reply s"
  by (simp add: write_bytes_def write_chunks_not_CHECKING)

lemma send_message_reply:
  assumes "length P \<le> 100" and "reply s = None" and "state s \<noteq> CHECKING"
    and "k < 50"
    and "\<forall>i<k. env (tick s + 2 * length (chunks 20 P) + i) = []"
    and "env (tick s + 2 * length (chunks 20 P) + k) = [Notify d]"
    and "d \<noteq> []"
  shows "send_message env s P =
     (if last d = xor_fold P then None else Some ChecksumMismatch,
      (write_bytes env s P)
        \<lparr>state := IDLE,
         events := events (write_bytes env s P) @ NewState CHECKING #
                   replicate (Suc k) (Slept 10) @
                   [NewState IDLE, Checked (xor_fold P) (Some (last d))],
         tick := tick s + 2 * length (chunks 20 P) + Suc k\<rparr>)"
proof -
  let ?s1 = "write_bytes env s P"
  let ?s2 = "update_state ?s1 CHECKING"
  have s1: "state ?s1 \<noteq> CHECKING" "reply ?s1 = None"
    using write_bytes_not_CHECKING [OF assms(3), of env P] assms(2) by simp_all
  have t: "tick ?s1 = tick s + 2 * length (chunks 20 P)"
    by (simp add: write_bytes_facts)
  have "checksum_polls env 50 ?s2 =
     (Inr (Some (last d)),
      ?s2\<lparr>state := IDLE,
          events := events ?s2 @ replicate (Suc k) (Slept 10) @ [NewState IDLE],
          tick := tick ?s2 + Suc k\<rparr>)"
    using assms(4-7) s1 by (intro checksum_polls_reply) (simp_all add: t)
  then have "wait_for_checksum env ?s1 =
     (Inr (Some (last d)),
      ?s2\<lparr>state := IDLE,
          events := events ?s2 @ replicate (Suc k) (Slept 10) @ [NewState IDLE],
          tick := tick ?s2 + Suc k\<rparr>)"
    by (simp add: wait_for_checksum_def)
  from send_message_cases [OF assms(1) this] show ?thesis
    using s1 by (auto simp: emit_def update_state_def t)
qed

text \<open>
  C1. Let \<open>P\<close> be a payload of 1 to 100 bytes, sent on a connection whose reply slot is
  empty and whose Status is not \<open>CHECKING\<close> (every connection on which no handshake has
  timed out; without this, and for a reply that comes before the wait, see
  \<open>send_message_echo_lost\<close> at the end). Whatever the callbacks receive while the payload is written, if the
  transport then delivers the checksum reply during the wait (nothing during the first
  \<open>k\<close> polls, \<open>k < 50\<close>, and during the next one a fragment whose last byte is the
  XOR of all bytes of \<open>P\<close>), then \<open>send_message\<close> returns without an error, Status is
  \<open>IDLE\<close> and the reply slot is empty again; and nothing that arrives while the
  payload is written is taken as the reply: when the write is over, the reply slot is
  still empty and Status is still not \<open>CHECKING\<close>. The write of \<open>P\<close> takes two suspension
  points for each transport chunk, so the polls start at suspension point
  \<open>tick s + 2 * length (chunks 20 P)\<close>. By \<open>xor_fold_simps\<close> the expected checksum is
  \<open>b\<^sub>1 XOR (b\<^sub>2 XOR (... XOR 0))\<close>.
\<close>

theorem send_message_echo:
  assumes "0 < length P" and "length P \<le> 100"
    and "reply s = None" and "state s \<noteq> CHECKING"
    and "k < 50"
    and "\<forall>i<k. env (tick s + 2 * length (chunks 20 P) + i) = []"
    and "env (tick s + 2 * length (chunks 20 P) + k) = [Notify d]"
    and "d \<noteq> []" and "last d = xor_fold P"
  shows "fst (send_message env s P) = None \<and>
         state (snd (send_message env s P)) = IDLE \<and>
         reply (snd (send_message env s P)) = None \<and>
         reply (write_bytes env s P) = None \<and>
         state (write_bytes env s P) \<noteq> CHECKING"
  using send_message_reply [OF assms(2-8)] assms(3,4,9)
    write_bytes_not_CHECKING [of s env P] by simp

lemma chunks_3: "chunks 20 [a, b, c] = [[a, b, c]]"
  by (simp add: chunks_single)

theorem send_message_echo_witness:
  "fst (send_message (\<lambda>t. if t = 3 then [Notify [9, 7]] else []) init_receiver [1, 2, 4]) = None \<and>
   state (snd (send_message (\<lambda>t. if t = 3 then [Notify [9, 7]] else []) init_receiver [1, 2, 4]))
     = IDLE \<and>
   reply (snd (send_message (\<lambda>t. if t = 3 then [Notify [9, 7]] else []) init_receiver [1, 2, 4]))
     = None"
  using send_message_echo [of "[1, 2, 4]" init_receiver 1
      "\<lambda>t. if t = 3 then [Notify [9, 7]] else []" "[9, 7]"]
  by (simp add: init_receiver_def chunks_3)

section \<open>A message that is not acknowledged\<close>

lemma transfer_trace_Slept [simp]:
  "transfer_trace (replicate n (Slept ms)) = replicate n (Slept ms)"
  by (induction n) simp_all

lemma send_message_silent:
  assumes "length P \<le> 100" and "reply s = None" and "state s \<noteq> CHECKING"
    and "\<forall>i<50. env (tick s + 2 * length (chunks 20 P) + i) = []"
  shows "send_message env s P =
     (Some ChecksumTimeout,
      (write_bytes env s P)
        \<lparr>state := CHECKING,
         events := events (write_bytes env s P) @ NewState CHECKING # replicate 50 (Slept 10),
         tick := tick s + 2 * length (chunks 20 P) + 50\<rparr>)"
proof -
  let ?s1 = "write_bytes env s P"
  let ?s2 = "update_state ?s1 CHECKING"
  have s1: "state ?s1 \<noteq> CHECKING" "reply ?s1 = None"
    using write_bytes_not_CHECKING [OF assms(3), of env P] assms(2) by simp_all
  have t: "tick ?s1 = tick s + 2 * length (chunks 20 P)"
    by (simp add: write_bytes_facts)
  have "checksum_polls env 50 ?s2 =
     (Inl ChecksumTimeout,
      ?s2\<lparr>events := events ?s2 @ replicate 50 (Slept 10), tick := tick ?s2 + 50\<rparr>)"
    using assms(4) s1 by (intro checksum_polls_timeout) (simp_all add: t)
  then have "wait_for_checksum env ?s1 =
     (Inl ChecksumTimeout,
      ?s2\<lparr>events := events ?s2 @ replicate 50 (Slept 10), tick := tick ?s2 + 50\<rparr>)"
    by (simp add: wait_for_checksum_def)
  from send_message_cases [OF assms(1) this] show ?thesis
    using s1 by (auto simp: emit_def update_state_def t)
qed

text \<open>
  C3. On a connection whose reply slot is empty and whose Status is not \<open>CHECKING\<close>,
  if nothing arrives during the wait, \<open>send_message\<close> writes the payload, enters
  \<open>CHECKING\<close>, sleeps 10 ms exactly 50 times (50 suspension points after those of the
  write) and raises the \<^verbatim>\<open>TimeoutError\<close> "Hub did not return checksum". The path
  that raises has no \<^verbatim>\<open>update_state(self.IDLE)\<close>, which the path that reads a reply
  has: when the error leaves \<open>send_message\<close>, Status is still \<open>CHECKING\<close>, not
  \<open>IDLE\<close>.
\<close>

theorem send_message_timeout:
  assumes "length P \<le> 100" and "reply s = None" and "state s \<noteq> CHECKING"
    and "\<forall>i<50. env (tick s + 2 * length (chunks 20 P) + i) = []"
  shows "fst (send_message env s P) = Some ChecksumTimeout \<and>
         transfer_trace (events (snd (send_message env s P))) =
           transfer_trace (events s) @ paced_writes (chunks 20 P) @
           NewState CHECKING # replicate 50 (Slept 10) \<and>
         tick (snd (send_message env s P)) = tick s + 2 * length (chunks 20 P) + 50 \<and>
         state (snd (send_message env s P)) = CHECKING"
  using send_message_silent [OF assms]
  by (simp add: write_bytes_facts)

theorem send_message_timeout_witness:
  "fst (send_message (\<lambda>t. []) init_receiver [1]) = Some ChecksumTimeout \<and>
   transfer_trace (events (snd (send_message (\<lambda>t. []) init_receiver [1]))) =
     [Slept 50, Wrote [1], NewState CHECKING] @ replicate 50 (Slept 10) \<and>
   tick (snd (send_message (\<lambda>t. []) init_receiver [1])) = 52 \<and>
   state (snd (send_message (\<lambda>t. []) init_receiver [1])) = CHECKING"
  using send_message_timeout [of "[1]" init_receiver "\<lambda>t. []"]
  by (simp add: init_receiver_def chunks_single paced_writes_def)

section \<open>The order of the write and the status change\<close>

lemmas run_defs = send_message_def write_bytes_def wait_for_checksum_def sleep_def
  write_gatt_char_def suspend_def emit_def update_state_def update_data_buffer_def
  init_receiver_def Let_def

text \<open>
  C4. For a payload of at most 100 bytes, on a connection whose Status is not
  \<open>CHECKING\<close>: \<open>send_message\<close> first writes the payload, as the transport chunks
  \<open>chunks 20 P\<close> in order (each of 1 to 20 bytes, together the payload), each write
  preceded by a 50 ms sleep; Status is not \<open>CHECKING\<close> after any of these writes;
  only then does it enter \<open>CHECKING\<close> and poll, at most 50 times, 10 ms each; the
  comparison of the reply, if one came, is the last event. The sending side produces no
  other event.
\<close>

theorem send_message_order:
  assumes "length P \<le> 100" and "state s \<noteq> CHECKING"
  shows "(\<forall>n. state (write_chunks env s (take n (chunks 20 P))) \<noteq> CHECKING) \<and>
         (\<exists>j\<le>50. \<exists>tail.
            transfer_trace (events (snd (send_message env s P))) =
              transfer_trace (events s) @ paced_writes (chunks 20 P) @
              NewState CHECKING # replicate j (Slept 10) @ tail \<and>
            (tail = [] \<or> (\<exists>r. tail = [Checked (xor_fold P) r]))) \<and>
         concat (chunks 20 P) = P \<and>
         (\<forall>c\<in>set (chunks 20 P). 0 < length c \<and> length c \<le> 20)"
proof (intro conjI)
  show "\<forall>n. state (write_chunks env s (take n (chunks 20 P))) \<noteq> CHECKING"
    using write_chunks_not_CHECKING [OF assms(2)] by simp
  show "concat (chunks 20 P) = P" by (simp add: concat_chunks)
  show "\<forall>c\<in>set (chunks 20 P). 0 < length c \<and> length c \<le> 20"
    using chunks_bound by blast
  let ?s1 = "write_bytes env s P"
  let ?s2 = "update_state ?s1 CHECKING"
  obtain w s3 where h: "wait_for_checksum env ?s1 = (w, s3)"
    by (cases "wait_for_checksum env ?s1")
  have s1: "state ?s1 \<noteq> CHECKING"
    using write_bytes_not_CHECKING [OF assms(2)] by simp
  obtain j where j: "j \<le> 50"
    "transfer_trace (events (snd (checksum_polls env 50 ?s2))) =
       transfer_trace (events ?s2) @ replicate j (Slept 10)"
    using checksum_polls_trace [of 50 env ?s2] by blast
  have s3: "transfer_trace (events s3) =
      transfer_trace (events s) @ paced_writes (chunks 20 P) @
      NewState CHECKING # replicate j (Slept 10)"
    using j(2) h s1 by (simp add: wait_for_checksum_def write_bytes_facts)
  show "\<exists>j\<le>50. \<exists>tail.
      transfer_trace (events (snd (send_message env s P))) =
        transfer_trace (events s) @ paced_writes (chunks 20 P) @
        NewState CHECKING # replicate j (Slept 10) @ tail \<and>
      (tail = [] \<or> (\<exists>r. tail = [Checked (xor_fold P) r]))"
  proof (cases w)
    case (Inl e)
    then have "snd (send_message env s P) = s3"
      using send_message_cases [OF assms(1) h] by simp
    then show ?thesis using s3 j(1) by (intro exI [of _ j] exI [of _ "[]"]) simp
  next
    case (Inr r)
    then have "snd (send_message env s P) = emit s3 (Checked (xor_fold P) r)"
      using send_message_cases [OF assms(1) h] by simp
    then show ?thesis using s3 j(1)
      by (intro exI [of _ j] exI [of _ "[Checked (xor_fold P) r]"]) simp
  qed
qed

theorem send_message_order_witness:
  "transfer_trace
     (events (snd (send_message (\<lambda>t. if t = 2 then [Notify [7]] else []) init_receiver [1, 2, 4])))
   = [Slept 50, Wrote [1, 2, 4], NewState CHECKING, Slept 10, Checked 7 (Some 7)] \<and>
   state (write_chunks (\<lambda>t. if t = 2 then [Notify [7]] else []) init_receiver [[1, 2, 4]])
   = UNKNOWN"
  using send_message_order [of "[1, 2, 4]" init_receiver "\<lambda>t. if t = 2 then [Notify [7]] else []"]
  by (simp add: run_defs chunks_single eval_nat_numeral)

text \<open>
  A three-byte payload that is acknowledged: the transport write comes before the
  entry into \<open>CHECKING\<close>, so the connection is not in \<open>CHECKING\<close> while it writes.
  What this does to a reply that arrives early: a fragment delivered while the
  transport write is awaited goes to the line buffer, not to the reply slot, and the
  call ends in the timeout.
\<close>

theorem send_message_writes_first:
  "fst (send_message (\<lambda>t. if t = 2 then [Notify [7]] else []) init_receiver [1, 2, 4]) = None \<and>
   events (snd (send_message (\<lambda>t. if t = 2 then [Notify [7]] else []) init_receiver [1, 2, 4]))
   = [Slept 50, Wrote [1, 2, 4], NewState CHECKING, Slept 10, NewState IDLE, Checked 7 (Some 7)] \<and>
   \<not> checking_before_writes
       (events (snd (send_message (\<lambda>t. if t = 2 then [Notify [7]] else []) init_receiver [1, 2, 4]))) \<and>
   fst (send_message (\<lambda>t. if t = 1 then [Notify [7]] else []) init_receiver [1, 2, 4])
   = Some ChecksumTimeout \<and>
   buf (snd (send_message (\<lambda>t. if t = 1 then [Notify [7]] else []) init_receiver [1, 2, 4]))
   = [7]"
  by (simp add: run_defs chunks_single eval_nat_numeral lines_loop.simps)

section \<open>The size check of \<open>send_message\<close>\<close>

text \<open>
  C5. A payload of more than 100 bytes is refused with the
  \<^verbatim>\<open>ValueError\<close> "Cannot send this much data at once" before anything else happens:
  the connection is returned as it was, so no transport write is issued, no time
  passes and Status does not change.
\<close>

theorem send_message_too_large:
  "length data > 100 \<Longrightarrow> send_message env s data = (Some ValueTooLarge, s)"
  by (simp add: send_message_def)

theorem send_message_too_large_witness:
  "length (replicate 101 (0 :: byte)) > 100 \<and>
   send_message (\<lambda>t. []) init_receiver (replicate 101 0) = (Some ValueTooLarge, init_receiver)"
  using send_message_too_large [of "replicate 101 0" "\<lambda>t. []" init_receiver] by simp

text \<open>
  The empty payload passes the size check, which only compares with 100: nothing is
  written, the connection enters \<open>CHECKING\<close> and, with no reply, the call ends in the
  \<^verbatim>\<open>TimeoutError\<close>, not in the \<^verbatim>\<open>ValueError\<close> of the size check.
\<close>

theorem send_message_empty_accepted:
  "fst (send_message (\<lambda>t. []) init_receiver []) = Some ChecksumTimeout \<and>
   fst (send_message (\<lambda>t. []) init_receiver []) \<noteq> Some ValueTooLarge \<and>
   state init_receiver = UNKNOWN \<and>
   state (snd (send_message (\<lambda>t. []) init_receiver [])) = CHECKING"
proof -
  have "send_message (\<lambda>t. []) init_receiver [] =
     (Some ChecksumTimeout,
      (write_bytes (\<lambda>t. []) init_receiver [])
        \<lparr>state := CHECKING,
         events := events (write_bytes (\<lambda>t. []) init_receiver []) @
                   NewState CHECKING # replicate 50 (Slept 10),
         tick := tick init_receiver + 2 * length (chunks 20 ([] :: bytes)) + 50\<rparr>)"
    by (rule send_message_silent) (simp_all add: init_receiver_def)
  then show ?thesis by (simp add: init_receiver_def)
qed

section \<open>The reply that \<open>send_message\<close> compares\<close>

text \<open>
  C10. \<open>wait_for_checksum\<close> never returns \<^verbatim>\<open>None\<close>: it returns the reply slot
  only after finding it filled, and raises otherwise. So \<open>send_message\<close> never raises
  the \<^verbatim>\<open>OSError\<close> "Did not receive reply.", whatever the payload, the connection and
  the environment.
\<close>

theorem reply_never_None:
  "fst (wait_for_checksum env s) \<noteq> Inr None \<and> fst (send_message env s data) \<noteq> Some NoReply"
proof
  show w: "fst (wait_for_checksum env s) \<noteq> Inr None" for s
    by (simp add: wait_for_checksum_def checksum_polls_never_None)
  show "fst (send_message env s data) \<noteq> Some NoReply"
  proof (cases "length data > 100")
    case True
    then show ?thesis by (simp add: send_message_def)
  next
    case False
    obtain r s2 where h: "wait_for_checksum env (write_bytes env s data) = (r, s2)"
      by (cases "wait_for_checksum env (write_bytes env s data)")
    have "r \<noteq> Inr None" using w [of "write_bytes env s data"] h by simp
    moreover have "r = Inl e \<Longrightarrow> e = ChecksumTimeout" for e
      using checksum_polls_result [of env 50 "update_state (write_bytes env s data) CHECKING" r s2] h
      by (simp add: wait_for_checksum_def)
    ultimately show ?thesis
      using False send_message_cases [OF _ h] by (auto split: sum.splits)
  qed
qed

section \<open>The lines of the inbound stream\<close>

lemma index_crlf_append: "index_crlf b = Some i \<Longrightarrow> index_crlf (b @ c) = Some i"
  by (induction b arbitrary: i rule: index_crlf.induct) (auto split: if_splits)

lemma split_lines_None: "index_crlf b = None \<Longrightarrow> split_lines b = []"
  by (simp add: split_lines.simps)

lemma split_lines_Some:
  "index_crlf b = Some i \<Longrightarrow> split_lines b = take i b # split_lines (drop (i + 2) b)"
  by (simp add: split_lines.simps [of b])

lemma remainder_None: "index_crlf b = None \<Longrightarrow> remainder b = b"
  by (simp add: remainder.simps)

lemma remainder_Some: "index_crlf b = Some i \<Longrightarrow> remainder b = remainder (drop (i + 2) b)"
  by (simp add: remainder.simps [of b])

lemma split_lines_append:
  "split_lines (b @ c) = split_lines b @ split_lines (remainder b @ c)"
proof (induction b rule: split_lines.induct)
  case (1 b)
  show ?case
  proof (cases "index_crlf b")
    case None
    then show ?thesis by (simp add: split_lines_None remainder_None)
  next
    case (Some i)
    have le: "i + 2 \<le> length b" using Some by (rule index_crlf_bound)
    have "split_lines (b @ c) = take i b # split_lines (drop (i + 2) b @ c)"
      using split_lines_Some [OF index_crlf_append [OF Some, of c]] le by simp
    then show ?thesis using "1.IH" [OF Some] Some
      by (simp add: split_lines_Some remainder_Some)
  qed
qed

lemma remainder_append: "remainder (b @ c) = remainder (remainder b @ c)"
proof (induction b rule: remainder.induct)
  case (1 b)
  show ?case
  proof (cases "index_crlf b")
    case None
    then show ?thesis by (simp add: remainder_None)
  next
    case (Some i)
    have le: "i + 2 \<le> length b" using Some by (rule index_crlf_bound)
    have "remainder (b @ c) = remainder (drop (i + 2) b @ c)"
      using remainder_Some [OF index_crlf_append [OF Some, of c]] le by simp
    then show ?thesis using "1.IH" [OF Some] Some by (simp add: remainder_Some)
  qed
qed

lemma process_line_buf_upd:
  "process_line (s\<lparr>buf := b\<rparr>) line =
     (fst (process_line s line), (snd (process_line s line))\<lparr>buf := b\<rparr>)"
  by (simp add: process_line_def emit_def Let_def split: option.splits)

lemma handle_line_buf_upd:
  "handle_line (s\<lparr>buf := b\<rparr>) line =
     (fst (handle_line s line), (snd (handle_line s line))\<lparr>buf := b\<rparr>)"
proof -
  have "(case map_state line of
           Some st \<Rightarrow> update_state (emit (s\<lparr>buf := b\<rparr>) (RX line)) st
         | None \<Rightarrow> emit (s\<lparr>buf := b\<rparr>) (RX line)) =
        (case map_state line of
           Some st \<Rightarrow> update_state (emit s (RX line)) st
         | None \<Rightarrow> emit s (RX line))\<lparr>buf := b\<rparr>"
    by (simp add: emit_def update_state_def split: option.splits)
  then show ?thesis
    by (simp add: handle_line_def Let_def process_line_buf_upd)
qed

lemma feed_lines_buf_upd:
  "feed_lines (s\<lparr>buf := b\<rparr>) ls =
     (fst (feed_lines s ls), (snd (feed_lines s ls))\<lparr>buf := b\<rparr>)"
proof (induction ls arbitrary: s)
  case Nil
  show ?case by simp
next
  case (Cons l ls)
  obtain r s' where h: "handle_line s l = (r, s')" by (cases "handle_line s l")
  show ?case using Cons.IH [of s'] h
    by (cases r) (simp_all add: handle_line_buf_upd)
qed

lemma feed_lines_buf: "buf (snd (feed_lines s ls)) = buf s"
proof (induction ls arbitrary: s)
  case Nil
  show ?case by simp
next
  case (Cons l ls)
  obtain r s' where h: "handle_line s l = (r, s')" by (cases "handle_line s l")
  show ?case using Cons.IH [of s'] h handle_line_buf [OF h] by (cases r) simp_all
qed

lemma lines_loop_feed:
  "fst (feed_lines s (split_lines (buf s))) = None \<Longrightarrow>
   lines_loop s = (None, (snd (feed_lines s (split_lines (buf s))))\<lparr>buf := remainder (buf s)\<rparr>)"
proof (induction s rule: lines_loop.induct)
  case (1 s)
  show ?case
  proof (cases "index_crlf (buf s)")
    case None
    then show ?thesis
      by (simp add: lines_loop.simps [of s] split_lines_None remainder_None)
  next
    case (Some i)
    let ?line = "take i (buf s)"
    let ?d = "drop (i + 2) (buf s)"
    let ?s1 = "s\<lparr>buf := ?d\<rparr>"
    obtain r s' where h: "handle_line s ?line = (r, s')" by (cases "handle_line s ?line")
    have sp: "split_lines (buf s) = ?line # split_lines ?d"
      using Some by (rule split_lines_Some)
    have r: "r = None" and f: "fst (feed_lines s' (split_lines ?d)) = None"
      using "1.prems" h by (auto simp: sp split: option.splits)
    have h1: "handle_line ?s1 ?line = (None, s'\<lparr>buf := ?d\<rparr>)"
      using h r by (simp add: handle_line_buf_upd)
    have "fst (feed_lines (s'\<lparr>buf := ?d\<rparr>) (split_lines (buf (s'\<lparr>buf := ?d\<rparr>)))) = None"
      using f by (simp add: feed_lines_buf_upd)
    from "1.IH" [OF Some refl refl h1 [symmetric] refl this]
    have "lines_loop (s'\<lparr>buf := ?d\<rparr>) =
        (None, (snd (feed_lines s' (split_lines ?d)))\<lparr>buf := remainder ?d\<rparr>)"
      by (simp add: feed_lines_buf_upd)
    then show ?thesis using Some h h1 r
      by (simp add: lines_loop.simps [of s] sp remainder_Some)
  qed
qed

lemma feed_lines_append:
  "feed_lines s (xs @ ys) =
     (case feed_lines s xs of
        (Some e, s') \<Rightarrow> (Some e, s')
      | (None, s') \<Rightarrow> feed_lines s' ys)"
proof (induction xs arbitrary: s)
  case Nil
  show ?case by simp
next
  case (Cons x xs)
  obtain r s' where h: "handle_line s x = (r, s')" by (cases "handle_line s x")
  show ?case using Cons.IH [of s'] h by (cases r) simp_all
qed

lemma feed_lines_frame: "dispatch_frame s (snd (feed_lines s ls))"
proof (induction ls arbitrary: s)
  case Nil
  show ?case by simp
next
  case (Cons l ls)
  obtain r s' where h: "handle_line s l = (r, s')" by (cases "handle_line s l")
  have f: "dispatch_frame s s'" using handle_line_frame [of s l] h by simp
  show ?case
  proof (cases r)
    case None
    then show ?thesis using dispatch_frame_trans [OF f Cons.IH [of s']] h by simp
  next
    case (Some e)
    then show ?thesis using f h by simp
  qed
qed

lemma rx_lines_simps [simp]:
  "rx_lines [] = []"
  "rx_lines (xs @ ys) = rx_lines xs @ rx_lines ys"
  "rx_lines (e # es) = (case e of RX line \<Rightarrow> [line] | _ \<Rightarrow> []) @ rx_lines es"
  by (simp_all add: rx_lines_def)

lemma process_line_rx: "rx_lines (events (snd (process_line s line))) = rx_lines (events s)"
  by (simp add: process_line_def Let_def split: option.splits)

lemma handle_line_rx:
  "rx_lines (events (snd (handle_line s line))) = rx_lines (events s) @ [line]"
  by (simp add: handle_line_def Let_def process_line_rx split: option.splits)

lemma feed_lines_rx:
  "fst (feed_lines s ls) = None \<Longrightarrow>
   rx_lines (events (snd (feed_lines s ls))) = rx_lines (events s) @ ls"
proof (induction ls arbitrary: s)
  case Nil
  show ?case by simp
next
  case (Cons l ls)
  obtain r s' where h: "handle_line s l = (r, s')" by (cases "handle_line s l")
  have r: "r = None" and f: "fst (feed_lines s' ls) = None"
    using Cons.prems h by (auto split: option.splits)
  show ?case using Cons.IH [OF f] handle_line_rx [of s l] h r by simp
qed

lemma deliver_simps [simp]:
  "deliver s [] = s"
  "deliver s (d # ds) = deliver (on_event s (Notify d)) ds"
  by (simp_all add: deliver_def)

lemma index_crlf_remainder [simp]: "index_crlf (remainder b) = None"
proof (induction b rule: remainder.induct)
  case (1 b)
  show ?case
  proof (cases "index_crlf b")
    case None
    then show ?thesis by (simp add: remainder_None)
  next
    case (Some i)
    then show ?thesis using "1.IH" by (simp add: remainder_Some)
  qed
qed

lemma deliver_lines:
  "state s \<noteq> CHECKING \<Longrightarrow> fst (feed_lines s (split_lines (buf s @ concat frags))) = None \<Longrightarrow>
   index_crlf (buf s) = None \<or> frags \<noteq> [] \<Longrightarrow>
   deliver s frags =
     (snd (feed_lines s (split_lines (buf s @ concat frags))))
       \<lparr>buf := remainder (buf s @ concat frags)\<rparr>"
proof (induction frags arbitrary: s)
  case Nil
  then show ?case by (simp add: split_lines_None remainder_None)
next
  case (Cons d ds)
  let ?b = "buf s @ d"
  let ?s0 = "s\<lparr>buf := ?b\<rparr>"
  let ?all = "split_lines (buf s @ d @ concat ds)"
  have sp: "?all = split_lines ?b @ split_lines (remainder ?b @ concat ds)"
    using split_lines_append [of ?b "concat ds"] by simp
  obtain r s1 where h: "feed_lines s (split_lines ?b) = (r, s1)"
    by (cases "feed_lines s (split_lines ?b)")
  have r: "r = None" and f: "fst (feed_lines s1 (split_lines (remainder ?b @ concat ds))) = None"
    using Cons.prems(2) h by (auto simp: sp feed_lines_append split: option.splits)
  have "lines_loop ?s0 = (None, (snd (feed_lines ?s0 (split_lines ?b)))\<lparr>buf := remainder ?b\<rparr>)"
    using lines_loop_feed [of ?s0] h r by (simp add: feed_lines_buf_upd)
  then have ev: "on_event s (Notify d) = s1\<lparr>buf := remainder ?b\<rparr>"
    using Cons.prems(1) h by (simp add: update_data_buffer_def feed_lines_buf_upd)
  have st: "state (s1\<lparr>buf := remainder ?b\<rparr>) \<noteq> CHECKING"
    using feed_lines_frame [of s "split_lines ?b"] h Cons.prems(1)
    by (simp add: dispatch_frame_def)
  have "deliver (s1\<lparr>buf := remainder ?b\<rparr>) ds =
      (snd (feed_lines (s1\<lparr>buf := remainder ?b\<rparr>) (split_lines (remainder ?b @ concat ds))))
        \<lparr>buf := remainder (remainder ?b @ concat ds)\<rparr>"
    using Cons.IH [OF st] f by (simp add: feed_lines_buf_upd)
  then show ?case using ev h r
    by (simp add: sp feed_lines_append feed_lines_buf_upd
        remainder_append [of ?b "concat ds", simplified])
qed


lemmas dispatch_defs = update_data_buffer_def init_receiver_def bytes_of_def text_of_def
  handle_line_def map_state_def process_line_def open_w_def decode_def emit_def
  update_state_def
  lines_loop.simps split_lines.simps remainder.simps Let_def

text \<open>
  C2. Outside \<open>CHECKING\<close>, for every sequence of fragments (not empty, or received on
  a buffer that holds no complete line) such that the line handler raises on no line of
  the stream, the stream being what the buffer held followed by the fragments: the
  dispatcher leaves the connection as handing these lines to the handler in order
  leaves it, with the unterminated rest of the stream in the buffer; the lines it
  extracts are exactly the lines of the stream, in order; and every other way to cut
  the same stream into fragments leaves the same connection.
\<close>

theorem dispatcher_lines:
  assumes "state s \<noteq> CHECKING"
    and "index_crlf (buf s) = None \<or> frags \<noteq> []"
    and "fst (feed_lines s (split_lines (buf s @ concat frags))) = None"
  shows "deliver s frags =
           (snd (feed_lines s (split_lines (buf s @ concat frags))))
             \<lparr>buf := remainder (buf s @ concat frags)\<rparr> \<and>
         rx_lines (events (deliver s frags)) =
           rx_lines (events s) @ split_lines (buf s @ concat frags) \<and>
         (\<forall>frags'. concat frags' = concat frags \<and> (index_crlf (buf s) = None \<or> frags' \<noteq> [])
            \<longrightarrow> deliver s frags' = deliver s frags)"
proof (intro conjI allI impI)
  show d: "deliver s frags =
      (snd (feed_lines s (split_lines (buf s @ concat frags))))
        \<lparr>buf := remainder (buf s @ concat frags)\<rparr>"
    using assms by (intro deliver_lines)
  show "rx_lines (events (deliver s frags)) =
      rx_lines (events s) @ split_lines (buf s @ concat frags)"
    using feed_lines_rx [OF assms(3)] by (simp add: d)
  fix frags'
  assume h: "concat frags' = concat frags \<and> (index_crlf (buf s) = None \<or> frags' \<noteq> [])"
  then have "deliver s frags' =
      (snd (feed_lines s (split_lines (buf s @ concat frags'))))
        \<lparr>buf := remainder (buf s @ concat frags')\<rparr>"
    using assms(1,3) by (intro deliver_lines) simp_all
  then show "deliver s frags' = deliver s frags" using h d by simp
qed

text \<open>The fragments \<^verbatim>\<open>b"ab"\<close> and \<^verbatim>\<open>b"c\r\ndef\r\n"\<close> give the lines
  \<^verbatim>\<open>abc\<close> and \<^verbatim>\<open>def\<close>, as the same bytes in one fragment do.\<close>

theorem dispatcher_lines_witness:
  "rx_lines (events (deliver init_receiver
      [bytes_of ''ab'', bytes_of ''c'' @ [13, 10] @ bytes_of ''def'' @ [13, 10]]))
     = [bytes_of ''abc'', bytes_of ''def''] \<and>
   split_lines (bytes_of ''abc'' @ [13, 10] @ bytes_of ''def'' @ [13, 10])
     = [bytes_of ''abc'', bytes_of ''def''] \<and>
   deliver init_receiver [bytes_of ''abc'' @ [13, 10] @ bytes_of ''def'' @ [13, 10]]
     = deliver init_receiver
         [bytes_of ''ab'', bytes_of ''c'' @ [13, 10] @ bytes_of ''def'' @ [13, 10]]"
  using dispatcher_lines [of init_receiver
      "[bytes_of ''ab'', bytes_of ''c'' @ [13, 10] @ bytes_of ''def'' @ [13, 10]]"]
  by (simp add: dispatch_defs)

text \<open>
  When the handler raises, the dispatch ends there and what the lines are depends on the
  fragments. \<^verbatim>\<open>PB_EOF\<close> with no log file open raises an \<^verbatim>\<open>OSError\<close>: received in
  one fragment with the line \<^verbatim>\<open>abc\<close> behind it, the second line stays in the buffer;
  received in a fragment of its own, the next fragment brings the second line out.
\<close>

theorem dispatcher_lines_cut_short:
  "rx_lines (events (deliver init_receiver
      [bytes_of ''PB_EOF'' @ [13, 10] @ bytes_of ''abc'' @ [13, 10]]))
     = [bytes_of ''PB_EOF''] \<and>
   rx_lines (events (deliver init_receiver
      [bytes_of ''PB_EOF'' @ [13, 10], bytes_of ''abc'' @ [13, 10]]))
     = [bytes_of ''PB_EOF'', bytes_of ''abc''] \<and>
   split_lines (bytes_of ''PB_EOF'' @ [13, 10] @ bytes_of ''abc'' @ [13, 10])
     = [bytes_of ''PB_EOF'', bytes_of ''abc'']"
  by (simp add: dispatch_defs)

text \<open>
  The same when \<^verbatim>\<open>open\<close> raises. A name that holds the code point 0 raises a
  \<^verbatim>\<open>ValueError\<close>, which the loop's own handler catches: the dispatch ends without an
  error, no log file is open, and the line \<^verbatim>\<open>abc\<close> behind it stays in the buffer. The
  marker alone names the empty file: the \<^verbatim>\<open>OSError\<close> of \<^verbatim>\<open>open\<close> leaves the method.
\<close>

lemma dispatcher_swallows_ValueError:
  "rx_lines (events (deliver init_receiver
      [bytes_of ''PB_OF:'' @ [0, 13, 10] @ bytes_of ''abc'' @ [13, 10]]))
     = [bytes_of ''PB_OF:'' @ [0]] \<and>
   buf (deliver init_receiver
      [bytes_of ''PB_OF:'' @ [0, 13, 10] @ bytes_of ''abc'' @ [13, 10]])
     = bytes_of ''abc'' @ [13, 10] \<and>
   update_data_buffer init_receiver
      (bytes_of ''PB_OF:'' @ [0, 13, 10] @ bytes_of ''abc'' @ [13, 10])
     = (None, init_receiver\<lparr>buf := bytes_of ''abc'' @ [13, 10],
                            events := [RX (bytes_of ''PB_OF:'' @ [0])]\<rparr>) \<and>
   fst (feed_lines init_receiver [bytes_of ''PB_OF:'' @ [0], bytes_of ''abc''])
     = Some (ValueError ''embedded null byte'') \<and>
   rx_lines (events (deliver init_receiver
      [bytes_of ''PB_OF'' @ [13, 10] @ bytes_of ''abc'' @ [13, 10]]))
     = [bytes_of ''PB_OF''] \<and>
   fst (update_data_buffer init_receiver
      (bytes_of ''PB_OF'' @ [13, 10] @ bytes_of ''abc'' @ [13, 10]))
     = Some (OSError ''No such file or directory'')"
  by (simp add: dispatch_defs)

section \<open>Status changes\<close>

lemma state_changes_simps [simp]:
  "state_changes [] = []"
  "state_changes (xs @ ys) = state_changes xs @ state_changes ys"
  "state_changes (e # es) = (case e of NewState st \<Rightarrow> [st] | _ \<Rightarrow> []) @ state_changes es"
  by (simp_all add: state_changes_def)

lemma update_state_twice:
  "state_changes (events (update_state (update_state s t) t)) =
     state_changes (events s) @ (if t = state s then [] else [t])"
  by simp





section \<open>The reply slot\<close>

text \<open>
  C8. In \<open>CHECKING\<close>, a fragment that is not empty puts its last byte in the reply
  slot and changes nothing else: the buffer is as it was and no line is extracted,
  whatever the fragment holds. The slot keeps one value: the next fragment replaces it.
  When \<open>wait_for_checksum\<close> returns a reply, it has emptied the slot.
\<close>

theorem checking_stores_last_byte:
  assumes "state s = CHECKING" and "data \<noteq> []"
  shows "update_data_buffer s data = (None, s\<lparr>reply := Some (last data)\<rparr>) \<and>
         (\<forall>data'. data' \<noteq> [] \<longrightarrow>
            deliver s [data, data'] = s\<lparr>reply := Some (last data')\<rparr>) \<and>
         (case wait_for_checksum env s' of
            (Inr r, s'') \<Rightarrow> r \<noteq> None \<and> reply s'' = None
          | (Inl e, s'') \<Rightarrow> e = ChecksumTimeout)"
proof (intro conjI allI impI)
  show u: "update_data_buffer s data = (None, s\<lparr>reply := Some (last data)\<rparr>)"
    using assms by (cases data) (simp_all add: update_data_buffer_def)
  show "deliver s [data, data'] = s\<lparr>reply := Some (last data')\<rparr>" if "data' \<noteq> []" for data'
    using that assms u by (cases data') (simp_all add: update_data_buffer_def)
  obtain w s'' where h: "wait_for_checksum env s' = (w, s'')"
    by (cases "wait_for_checksum env s'")
  then show "case wait_for_checksum env s' of
      (Inr r, s'') \<Rightarrow> r \<noteq> None \<and> reply s'' = None
    | (Inl e, s'') \<Rightarrow> e = ChecksumTimeout"
    using checksum_polls_result [of env 50 "update_state s' CHECKING" w s'']
    by (simp add: wait_for_checksum_def split: sum.splits)
qed

theorem checking_stores_last_byte_witness:
  "update_data_buffer (init_receiver\<lparr>state := CHECKING\<rparr>) [1, 2, 3] =
     (None, init_receiver\<lparr>state := CHECKING, reply := Some 3\<rparr>) \<and>
   deliver (init_receiver\<lparr>state := CHECKING\<rparr>) [[1, 2, 3], [13, 10, 5]] =
     init_receiver\<lparr>state := CHECKING, reply := Some 5\<rparr> \<and>
   wait_for_checksum (\<lambda>t. if t = 0 then [Notify [1, 2, 3]] else []) init_receiver =
     (Inr (Some 3),
      init_receiver\<lparr>state := IDLE, reply := None,
        events := [NewState CHECKING, Slept 10, NewState IDLE], tick := 1\<rparr>)"
  using checking_stores_last_byte [of "init_receiver\<lparr>state := CHECKING\<rparr>" "[1, 2, 3]"
      "\<lambda>t. if t = 0 then [Notify [1, 2, 3]] else []" init_receiver]
  by (simp add: run_defs eval_nat_numeral)

text \<open>An empty fragment in \<open>CHECKING\<close>: \<^verbatim>\<open>data[-1]\<close> raises \<^verbatim>\<open>IndexError\<close>
  and the slot stays empty.\<close>

theorem checking_empty_fragment:
  "update_data_buffer (init_receiver\<lparr>state := CHECKING\<rparr>) [] =
     (Some IndexError, init_receiver\<lparr>state := CHECKING\<rparr>) \<and>
   reply (init_receiver\<lparr>state := CHECKING\<rparr>) = None"
  by (simp add: update_data_buffer_def init_receiver_def)

section \<open>The log file\<close>

text \<open>
  C9. For a line that decodes to \<open>txt\<close>. When \<open>txt\<close> holds \<^verbatim>\<open>PB_OF\<close>: with a log
  file open, the \<^verbatim>\<open>OSError\<close> "Log file is already open!" and no change; otherwise
  \<^verbatim>\<open>open\<close> is called on \<open>txt\<close> from position 6, and the file is opened and kept
  when that name is not empty, holds no code point 0 and is not refused by the file
  system; when \<^verbatim>\<open>open\<close> raises (a \<^verbatim>\<open>ValueError\<close> for a code point 0, an
  \<^verbatim>\<open>OSError\<close> for the empty name or for a name the file system refuses), the
  exception is the line's and no log file is open afterwards. When \<open>txt\<close> holds
  \<^verbatim>\<open>PB_EOF\<close> and not \<^verbatim>\<open>PB_OF\<close>: with no log file open, the \<^verbatim>\<open>OSError\<close> "No log
  file is currently open!" and no change; otherwise the file is closed and the field
  cleared. Every other line goes, with a newline, to the log file when one is open, and
  then not to the output; to the output otherwise. So an opening line whose file opens,
  two lines without a marker and a closing line open one file, write to it twice and
  close it; and an opening line in place of the closing one raises.
\<close>

theorem log_lifecycle:
  assumes "decode line = Some txt"
  shows "(contains open_marker txt \<and> log_file s \<noteq> None \<longrightarrow>
            process_line s line = (Some LogAlreadyOpen, s)) \<and>
         (contains open_marker txt \<and> log_file s = None \<and>
          0 \<notin> set (drop 6 txt) \<and> drop 6 txt \<noteq> [] \<and> fs s (drop 6 txt) = None \<longrightarrow>
            process_line s line =
              (None, s\<lparr>log_file := Some (drop 6 txt),
                       events := events s @ [LogOpened (drop 6 txt)]\<rparr>)) \<and>
         (contains open_marker txt \<and> log_file s = None \<and> 0 \<in> set (drop 6 txt) \<longrightarrow>
            process_line s line = (Some (ValueError ''embedded null byte''), s)) \<and>
         (contains open_marker txt \<and> log_file s = None \<and> drop 6 txt = [] \<longrightarrow>
            process_line s line = (Some (OSError ''No such file or directory''), s)) \<and>
         (\<forall>msg. contains open_marker txt \<and> log_file s = None \<and>
            0 \<notin> set (drop 6 txt) \<and> drop 6 txt \<noteq> [] \<and> fs s (drop 6 txt) = Some msg \<longrightarrow>
            process_line s line = (Some (OSError msg), s)) \<and>
         (\<not> contains open_marker txt \<and> contains close_marker txt \<and> log_file s = None \<longrightarrow>
            process_line s line = (Some NoLogOpen, s)) \<and>
         (\<not> contains open_marker txt \<and> contains close_marker txt \<and> log_file s \<noteq> None \<longrightarrow>
            process_line s line =
              (None, s\<lparr>log_file := None, events := events s @ [LogClosed]\<rparr>)) \<and>
         (\<not> contains open_marker txt \<and> \<not> contains close_marker txt \<and> log_file s \<noteq> None \<longrightarrow>
            process_line s line = (None, s\<lparr>events := events s @ [LogWrote (txt @ [10])]\<rparr>)) \<and>
         (\<not> contains open_marker txt \<and> \<not> contains close_marker txt \<and> log_file s = None \<longrightarrow>
            process_line s line = (None, s\<lparr>events := events s @ [Printed (txt @ [10])]\<rparr>)) \<and>
         (\<forall>l1 t1 l2 t2 lc tc.
            contains open_marker txt \<and> log_file s = None \<and>
            0 \<notin> set (drop 6 txt) \<and> drop 6 txt \<noteq> [] \<and> fs s (drop 6 txt) = None \<and>
            decode l1 = Some t1 \<and> \<not> contains open_marker t1 \<and> \<not> contains close_marker t1 \<and>
            decode l2 = Some t2 \<and> \<not> contains open_marker t2 \<and> \<not> contains close_marker t2 \<and>
            decode lc = Some tc \<and> \<not> contains open_marker tc \<and> contains close_marker tc \<longrightarrow>
            process_lines s [line, l1, l2, lc] =
              (None, s\<lparr>log_file := None,
                       events := events s @ [LogOpened (drop 6 txt), LogWrote (t1 @ [10]),
                                             LogWrote (t2 @ [10]), LogClosed]\<rparr>) \<and>
            fst (process_lines s [line, l1, l2, line]) = Some LogAlreadyOpen)"
  using assms by (auto simp: process_line_def open_w_def emit_def Let_def)

lemmas line_defs = process_line_def open_w_def decode_def bytes_of_def text_of_def emit_def
  init_receiver_def Let_def

theorem log_lifecycle_witness:
  "process_lines init_receiver
     [bytes_of ''PB_OF:out.txt'', bytes_of ''1, 2'', bytes_of ''3, 4'', bytes_of ''PB_EOF'']
   = (None, init_receiver\<lparr>events :=
        [LogOpened (text_of ''out.txt''), LogWrote (text_of ''1, 2'' @ [10]),
         LogWrote (text_of ''3, 4'' @ [10]), LogClosed]\<rparr>) \<and>
   fst (process_lines init_receiver
     [bytes_of ''PB_OF:out.txt'', bytes_of ''1, 2'', bytes_of ''3, 4'', bytes_of ''PB_OF:out.txt''])
   = Some LogAlreadyOpen \<and>
   process_line init_receiver (bytes_of ''PB_EOF'') = (Some NoLogOpen, init_receiver) \<and>
   process_line (init_receiver\<lparr>fs := (\<lambda>name. Some ''Permission denied'')\<rparr>)
       (bytes_of ''PB_OF:out.txt'')
   = (Some (OSError ''Permission denied''),
      init_receiver\<lparr>fs := (\<lambda>name. Some ''Permission denied'')\<rparr>)"
  using log_lifecycle [of "bytes_of ''PB_OF:out.txt''" "text_of ''PB_OF:out.txt''" init_receiver]
  by (simp add: line_defs)

text \<open>
  A line that holds both markers is an opening line, because \<^verbatim>\<open>PB_OF\<close> is tested
  first: with no log file open it opens one and raises nothing, and with a log file open
  it raises "Log file is already open!" and does not close it. And an opening line does
  not always open a file: the marker alone names the empty file, \<^verbatim>\<open>open\<close> raises and
  no log file is open afterwards.
\<close>

theorem close_marker_with_open_marker:
  "process_line init_receiver (bytes_of ''PB_EOF PB_OF'') =
     (None, init_receiver\<lparr>log_file := Some (text_of '' PB_OF''),
                           events := [LogOpened (text_of '' PB_OF'')]\<rparr>) \<and>
   process_line (init_receiver\<lparr>log_file := Some (text_of ''out.txt'')\<rparr>)
       (bytes_of ''PB_EOF PB_OF'') =
     (Some LogAlreadyOpen, init_receiver\<lparr>log_file := Some (text_of ''out.txt'')\<rparr>) \<and>
   contains close_marker (text_of ''PB_EOF PB_OF'') \<and>
   contains open_marker (text_of ''PB_OF'') \<and>
   process_line init_receiver (bytes_of ''PB_OF'') =
     (Some (OSError ''No such file or directory''), init_receiver)"
  by (simp add: line_defs)

section \<open>The upload\<close>

lemma wire_simps [simp]:
  "wire [] = []"
  "wire (xs @ ys) = wire xs @ wire ys"
  "wire (e # es) = (if is_wire e then e # wire es else wire es)"
  by (simp_all add: wire_def)

lemma wire_transfer_trace: "wire (transfer_trace evs) = wire evs"
proof -
  have "is_wire e \<Longrightarrow> is_transfer e" for e by (cases e) simp_all
  then have "(\<lambda>e. is_transfer e \<and> is_wire e) = is_wire" by auto
  then show ?thesis by (simp add: wire_def transfer_trace_def)
qed

lemma wire_paced_writes [simp]: "wire (paced_writes cs) = map Wrote cs"
  by (induction cs) (simp_all add: paced_writes_def)

lemma wire_Slept [simp]: "wire (replicate n (Slept ms)) = []"
  by (induction n) simp_all

lemma wire_write_bytes:
  "wire (events (write_bytes env s m)) = wire (events s) @ map Wrote (chunks 20 m)"
  using arg_cong [OF write_bytes_facts(2) [of env s m], of wire]
  by (simp add: wire_transfer_trace)

lemma wire_checksum_polls: "wire (events (snd (checksum_polls env n s))) = wire (events s)"
proof -
  obtain j where "transfer_trace (events (snd (checksum_polls env n s))) =
      transfer_trace (events s) @ replicate j (Slept 10)"
    using checksum_polls_trace [of n env s] by blast
  from arg_cong [OF this, of wire] show ?thesis by (simp add: wire_transfer_trace)
qed

lemma wire_wait_for_checksum:
  "wire (events (snd (wait_for_checksum env s))) = wire (events s)"
  by (simp add: wait_for_checksum_def wire_checksum_polls)

lemma send_message_wire:
  assumes "send_message env s m = (None, s')"
  shows "wire (events s') = wire (events s) @ msg_wire m"
proof -
  have len: "length m \<le> 100" using assms by (auto simp: send_message_def split: if_splits)
  obtain w s2 where h: "wait_for_checksum env (write_bytes env s m) = (w, s2)"
    by (cases "wait_for_checksum env (write_bytes env s m)")
  have s2: "wire (events s2) = wire (events s) @ map Wrote (chunks 20 m)"
    using wire_wait_for_checksum [of env "write_bytes env s m"] h
    by (simp add: wire_write_bytes)
  from send_message_cases [OF len h] assms
  have "w = Inr (Some (xor_fold m))" and "s' = emit s2 (Checked (xor_fold m) (Some (xor_fold m)))"
    by (auto split: sum.splits if_splits)
  then show ?thesis using s2 by (simp add: msg_wire_def)
qed

lemma send_chunks_wire:
  "send_chunks env s ms = (None, s') \<Longrightarrow>
   wire (events s') = wire (events s) @ concat (map msg_wire ms)"
proof (induction ms arbitrary: s)
  case Nil
  then show ?case by simp
next
  case (Cons m ms)
  obtain r s1 where h: "send_message env s m = (r, s1)" by (cases "send_message env s m")
  then have r: "r = None" and rest: "send_chunks env s1 ms = (None, s')"
    using Cons.prems by (auto split: option.splits)
  show ?case using Cons.IH [OF rest] send_message_wire [OF h [unfolded r]] by simp
qed

lemma send_chunks_abort:
  "send_chunks env s pre = (None, s1) \<Longrightarrow> send_message env s1 c = (Some e, s2) \<Longrightarrow>
   send_chunks env s (pre @ c # post) = (Some e, s2)"
proof (induction pre arbitrary: s)
  case Nil
  then show ?case by simp
next
  case (Cons m ms)
  obtain r s' where h: "send_message env s m = (r, s')" by (cases "send_message env s m")
  then have r: "r = None" and rest: "send_chunks env s' ms = (None, s1)"
    using Cons.prems(1) by (auto split: option.splits)
  show ?case using Cons.IH [OF rest Cons.prems(2)] h r by simp
qed

lemma to_bytes_le:
  assumes "n < 2 ^ 32"
  shows "\<exists>len. to_bytes n = Inr len \<and> length len = 4 \<and> le_value len = n"
proof -
  define m1 m2 m3 where "m1 = n div 256" and "m2 = n div 65536" and "m3 = n div 16777216"
  have d2: "m2 = m1 div 256" and d3: "m3 = m2 div 256"
    by (simp_all add: m1_def m2_def m3_def div_mult2_eq)
  have "m3 < 256" using assms unfolding m3_def by (simp add: less_mult_imp_div_less)
  then have e3: "m3 mod 256 = m3" by simp
  have e0: "n = n mod 256 + 256 * m1" by (simp add: m1_def)
  have e1: "m1 = m1 mod 256 + 256 * m2" by (simp add: d2)
  have e2: "m2 = m2 mod 256 + 256 * m3" by (simp add: d3)
  have "n mod 256 + 256 * (m1 mod 256 + 256 * (m2 mod 256 + 256 * (m3 mod 256))) = n"
    using e0 e1 e2 e3 by simp
  then show ?thesis using assms
    by (simp add: to_bytes_def le_value_def unat_of_nat m1_def m2_def m3_def)
qed

lemma send_chunks_echo:
  "echoes env (tick s) mks \<Longrightarrow> reply s = None \<Longrightarrow> state s \<noteq> CHECKING \<Longrightarrow>
   \<forall>m\<in>set (map fst mks). length m \<le> 100 \<Longrightarrow>
   fst (send_chunks env s (map fst mks)) = None \<and>
   reply (snd (send_chunks env s (map fst mks))) = None \<and>
   state (snd (send_chunks env s (map fst mks))) = (if mks = [] then state s else IDLE) \<and>
   tick (snd (send_chunks env s (map fst mks))) = end_tick (tick s) mks"
proof (induction mks arbitrary: s)
  case Nil
  then show ?case by simp
next
  case (Cons mk mks)
  obtain m k where mk: "mk = (m, k)" by (cases mk)
  let ?t = "tick s + 2 * length (chunks 20 m)"
  have e: "k < 50" "\<forall>i<k. env (?t + i) = []" "env (?t + k) = [Notify [xor_fold m]]"
    "echoes env (?t + Suc k) mks"
    using Cons.prems(1) by (simp_all add: mk)
  have len: "length m \<le> 100" using Cons.prems(4) by (simp add: mk)
  let ?s1 = "(write_bytes env s m)
        \<lparr>state := IDLE,
         events := events (write_bytes env s m) @ NewState CHECKING #
                   replicate (Suc k) (Slept 10) @
                   [NewState IDLE, Checked (xor_fold m) (Some (last [xor_fold m]))],
         tick := ?t + Suc k\<rparr>"
  have sm: "send_message env s m = (None, ?s1)"
    using send_message_reply [OF len Cons.prems(2,3) e(1,2,3)] by simp
  have r1: "reply ?s1 = None"
    using write_bytes_not_CHECKING [OF Cons.prems(3), of env m] Cons.prems(2) by simp
  have "echoes env (tick ?s1) mks" using e(4) by simp
  from Cons.IH [OF this r1] Cons.prems(4)
  have "fst (send_chunks env ?s1 (map fst mks)) = None \<and>
     reply (snd (send_chunks env ?s1 (map fst mks))) = None \<and>
     state (snd (send_chunks env ?s1 (map fst mks))) = (if mks = [] then state ?s1 else IDLE) \<and>
     tick (snd (send_chunks env ?s1 (map fst mks))) = end_tick (tick ?s1) mks"
    by simp
  then show ?case using sm by (simp add: mk)
qed

lemma wait_until_not_running_now:
  assumes "state s \<noteq> RUNNING" and "env (tick s) = []" and "env (Suc (tick s)) = []"
  shows "wait_until_not_running env s =
     Some (s\<lparr>events := events s @ [Slept 500, Slept 100], tick := tick s + 2\<rparr>)"
proof -
  let ?s1 = "s\<lparr>events := events s @ [Slept 500], tick := Suc (tick s)\<rparr>"
  have s1: "sleep 500 env s = ?s1" using assms(2) by (rule sleep_silent)
  have "sleep 100 env ?s1 = ?s1\<lparr>events := events ?s1 @ [Slept 100], tick := Suc (tick ?s1)\<rparr>"
    using assms(3) by (intro sleep_silent) simp
  then show ?thesis using assms(1) s1
    by (simp add: wait_until_not_running_def not_running_loop.simps [of env ?s1])
qed

lemma chunks_count:
  "0 < n \<Longrightarrow> length (chunks n data) =
     length data div n + (if length data mod n = 0 then 0 else 1)"
  using arg_cong [OF length_chunks [of n data], of length] by simp

lemma xor_fold_replicate_even: "xor_fold (replicate (2 * n) b) = 0"
  by (induction n) simp_all


text \<open>
  C6. For every program of less than \<open>2^32\<close> bytes (a longer one has no four-byte
  length: \<^verbatim>\<open>to_bytes\<close> raises), \<open>download_and_run\<close> first sends the length as one
  message of four bytes, little-endian. If that message fails, the call ends with its
  error. Then it sends the chunks \<open>chunks 100 mpy\<close> in order: each has 1 to 100
  bytes, all but the last have 100, together they are the program; for 250 bytes they
  have 100, 100 and 50. If a chunk fails, the call ends with that chunk's error, in the
  connection as that chunk left it: nothing is sent after it, and every message before
  it was written and then acknowledged with its own checksum. If all succeed, the
  transport has seen, for the length and then for each chunk in turn, the writes of the
  message followed by the comparison of the reply with its checksum, equal, before
  the first write of the next; and the call goes on as \<open>wait_until_not_running\<close>. In
  an environment that echoes the checksum of each message during its wait, all succeed.
\<close>

theorem download_and_run_protocol:
  assumes "length mpy < 2 ^ 32"
  shows "\<exists>len.
      to_bytes (length mpy) = Inr len \<and> length len = 4 \<and> le_value len = length mpy \<and>
      (\<forall>e s1. send_message env s len = (Some e, s1) \<longrightarrow>
         download_and_run env s mpy = Some (Some e, s1)) \<and>
      (\<forall>pre c post s1 s2 e s3.
         chunks 100 mpy = pre @ c # post \<and> send_message env s len = (None, s1) \<and>
         send_chunks env s1 pre = (None, s2) \<and> send_message env s2 c = (Some e, s3) \<longrightarrow>
         download_and_run env s mpy = Some (Some e, s3) \<and>
         wire (events s2) = wire (events s) @ concat (map msg_wire (len # pre))) \<and>
      (\<forall>s2. send_chunks env s (len # chunks 100 mpy) = (None, s2) \<longrightarrow>
         download_and_run env s mpy = map_option (Pair None) (wait_until_not_running env s2) \<and>
         wire (events s2) = wire (events s) @ concat (map msg_wire (len # chunks 100 mpy))) \<and>
      (\<forall>ks. length ks = Suc (length (chunks 100 mpy)) \<and>
         echoes env (tick s) (zip (len # chunks 100 mpy) ks) \<and>
         reply s = None \<and> state s \<noteq> CHECKING \<longrightarrow>
         fst (send_chunks env s (len # chunks 100 mpy)) = None) \<and>
      concat (chunks 100 mpy) = mpy \<and>
      (\<forall>c\<in>set (chunks 100 mpy). 0 < length c \<and> length c \<le> 100) \<and>
      map length (chunks 100 mpy) =
        replicate (length mpy div 100) 100 @
        (if length mpy mod 100 = 0 then [] else [length mpy mod 100]) \<and>
      (length mpy = 250 \<longrightarrow> map length (chunks 100 mpy) = [100, 100, 50])"
proof -
  obtain len where len: "to_bytes (length mpy) = Inr len" "length len = 4"
    "le_value len = length mpy"
    using to_bytes_le [OF assms] by blast
  let ?cs = "chunks 100 mpy"
  have fail_len: "download_and_run env s mpy = Some (Some e, s1)"
    if "send_message env s len = (Some e, s1)" for e s1
    using that len(1) by (simp add: download_and_run_def)
  have fail_chunk: "download_and_run env s mpy = Some (Some e, s3) \<and>
      wire (events s2) = wire (events s) @ concat (map msg_wire (len # pre))"
    if h: "?cs = pre @ c # post \<and> send_message env s len = (None, s1) \<and>
      send_chunks env s1 pre = (None, s2) \<and> send_message env s2 c = (Some e, s3)"
    for pre c post s1 s2 e s3
  proof
    have "send_chunks env s1 ?cs = (Some e, s3)"
      using h send_chunks_abort [of env s1 pre s2 c e s3 post] by simp
    then show "download_and_run env s mpy = Some (Some e, s3)"
      using h len(1) by (simp add: download_and_run_def)
    show "wire (events s2) = wire (events s) @ concat (map msg_wire (len # pre))"
      using h send_message_wire [of env s len s1] send_chunks_wire [of env s1 pre s2] by simp
  qed
  have ok: "download_and_run env s mpy = map_option (Pair None) (wait_until_not_running env s2) \<and>
      wire (events s2) = wire (events s) @ concat (map msg_wire (len # ?cs))"
    if h: "send_chunks env s (len # ?cs) = (None, s2)" for s2
  proof
    obtain r s1 where m: "send_message env s len = (r, s1)"
      by (cases "send_message env s len")
    then have "r = None" and "send_chunks env s1 ?cs = (None, s2)"
      using h by (auto split: option.splits)
    then show "download_and_run env s mpy =
        map_option (Pair None) (wait_until_not_running env s2)"
      using m len(1) by (simp add: download_and_run_def)
    show "wire (events s2) = wire (events s) @ concat (map msg_wire (len # ?cs))"
      using send_chunks_wire [OF h] .
  qed
  have echo: "fst (send_chunks env s (len # ?cs)) = None"
    if h: "length ks = Suc (length ?cs) \<and> echoes env (tick s) (zip (len # ?cs) ks) \<and>
      reply s = None \<and> state s \<noteq> CHECKING" for ks
  proof -
    have fst_zip: "map fst (zip (len # ?cs) ks) = len # ?cs"
      using h by (intro map_fst_zip) simp
    have "\<forall>m\<in>set (len # ?cs). length m \<le> 100"
      using len(2) chunks_bound [of _ 100 mpy] by auto
    then show ?thesis
      using send_chunks_echo [of env s "zip (len # ?cs) ks"] h by (simp only: fst_zip) simp
  qed
  have lens: "map length ?cs =
      replicate (length mpy div 100) 100 @
      (if length mpy mod 100 = 0 then [] else [length mpy mod 100])"
    by (rule length_chunks) simp
  have l250: "map length ?cs = [100, 100, 50]" if "length mpy = 250"
    using lens that by (simp add: numeral_2_eq_2)
  have bound: "\<forall>c\<in>set ?cs. 0 < length c \<and> length c \<le> 100"
    using chunks_bound by blast
  show ?thesis
  proof (intro exI [of _ len] conjI)
    show "to_bytes (length mpy) = Inr len" "length len = 4" "le_value len = length mpy"
      by (rule len)+
    show "\<forall>e s1. send_message env s len = (Some e, s1) \<longrightarrow>
        download_and_run env s mpy = Some (Some e, s1)"
      using fail_len by blast
    show "\<forall>pre c post s1 s2 e s3.
        ?cs = pre @ c # post \<and> send_message env s len = (None, s1) \<and>
        send_chunks env s1 pre = (None, s2) \<and> send_message env s2 c = (Some e, s3) \<longrightarrow>
        download_and_run env s mpy = Some (Some e, s3) \<and>
        wire (events s2) = wire (events s) @ concat (map msg_wire (len # pre))"
      by (intro allI impI) (rule fail_chunk)
    show "\<forall>s2. send_chunks env s (len # ?cs) = (None, s2) \<longrightarrow>
        download_and_run env s mpy = map_option (Pair None) (wait_until_not_running env s2) \<and>
        wire (events s2) = wire (events s) @ concat (map msg_wire (len # ?cs))"
      by (intro allI impI) (rule ok)
    show "\<forall>ks. length ks = Suc (length ?cs) \<and>
        echoes env (tick s) (zip (len # ?cs) ks) \<and> reply s = None \<and> state s \<noteq> CHECKING \<longrightarrow>
        fst (send_chunks env s (len # ?cs)) = None"
      by (intro allI impI) (rule echo)
    show "concat ?cs = mpy" by (simp add: concat_chunks)
    show "\<forall>c\<in>set ?cs. 0 < length c \<and> length c \<le> 100" by (rule bound)
    show "map length ?cs =
        replicate (length mpy div 100) 100 @
        (if length mpy mod 100 = 0 then [] else [length mpy mod 100])"
      by (rule lens)
    show "length mpy = 250 \<longrightarrow> map length ?cs = [100, 100, 50]"
      using l250 by blast
  qed
qed

text \<open>
  A program of 250 bytes, each 1, on a new connection. The environment \<open>echo_250\<close>
  answers the length message at suspension point 2 and the three chunks at 13, 24 and
  31, each time during the first poll. The upload succeeds, Status is \<open>IDLE\<close> after
  the last acknowledgement, so \<open>wait_until_not_running\<close> returns after its first poll.
\<close>

lemma chunks_250:
  "chunks 100 (replicate 250 (1 :: byte)) = [replicate 100 1, replicate 100 1, replicate 50 1]"
  by (simp add: chunks.simps)

lemma xor_fold_ones:
  "xor_fold (replicate 100 (1 :: byte)) = 0" "xor_fold (replicate 50 (1 :: byte)) = 0"
  using xor_fold_replicate_even [of 50 1] xor_fold_replicate_even [of 25 1] by simp_all

theorem download_and_run_protocol_witness:
  "\<exists>s'. download_and_run echo_250 init_receiver (replicate 250 1) = Some (None, s') \<and>
     wire (events s') =
       concat (map msg_wire [[250, 0, 0, 0], replicate 100 1, replicate 100 1, replicate 50 1]) \<and>
     state s' = IDLE"
proof -
  let ?mpy = "replicate 250 (1 :: byte)"
  let ?msgs = "[[250, 0, 0, 0], replicate 100 1, replicate 100 1, replicate 50 (1 :: byte)]"
  let ?mks = "zip ?msgs [0, 0, 0, 0 :: nat]"
  define s2 where "s2 = snd (send_chunks echo_250 init_receiver ?msgs)"
  have tb: "to_bytes (length ?mpy) = Inr [250, 0, 0, 0]" by (simp add: to_bytes_def)
  have e: "echoes echo_250 (tick init_receiver) ?mks"
    by (simp add: init_receiver_def echo_250_def chunks_count xor_fold_ones)
  have "fst (send_chunks echo_250 init_receiver (map fst ?mks)) = None \<and>
      reply (snd (send_chunks echo_250 init_receiver (map fst ?mks))) = None \<and>
      state (snd (send_chunks echo_250 init_receiver (map fst ?mks))) =
        (if ?mks = [] then state init_receiver else IDLE) \<and>
      tick (snd (send_chunks echo_250 init_receiver (map fst ?mks))) =
        end_tick (tick init_receiver) ?mks"
    using e by (rule send_chunks_echo) (simp_all add: init_receiver_def)
  then have s2: "send_chunks echo_250 init_receiver ?msgs = (None, s2)"
    "state s2 = IDLE" "tick s2 = 32"
    unfolding s2_def by (simp_all add: prod_eq_iff init_receiver_def chunks_count)
  from download_and_run_protocol [of ?mpy echo_250 init_receiver] tb
  have "\<forall>s2. send_chunks echo_250 init_receiver ([250, 0, 0, 0] # chunks 100 ?mpy) = (None, s2) \<longrightarrow>
      download_and_run echo_250 init_receiver ?mpy =
        map_option (Pair None) (wait_until_not_running echo_250 s2) \<and>
      wire (events s2) =
        wire (events init_receiver) @ concat (map msg_wire ([250, 0, 0, 0] # chunks 100 ?mpy))"
    by auto
  then have d: "download_and_run echo_250 init_receiver ?mpy =
        map_option (Pair None) (wait_until_not_running echo_250 s2)"
    and w: "wire (events s2) = concat (map msg_wire ?msgs)"
    using s2(1) unfolding chunks_250 by (simp_all add: init_receiver_def)
  have "wait_until_not_running echo_250 s2 =
      Some (s2\<lparr>events := events s2 @ [Slept 500, Slept 100], tick := tick s2 + 2\<rparr>)"
    by (rule wait_until_not_running_now) (simp_all add: s2 echo_250_def)
  then show ?thesis using d w s2(2) by simp
qed

section \<open>Replies that miss the wait\<close>

text \<open>
  The checksum of \<^verbatim>\<open>b"\x05\x09"\<close> is 12. Delivered while the transport write is
  awaited, on a new connection, it goes to the line buffer: the call polls 50 times
  and ends in the \<^verbatim>\<open>TimeoutError\<close>, with Status \<open>CHECKING\<close>. And on the connection
  that a call without a reply has left in \<open>CHECKING\<close>, the text \<^verbatim>\<open>ok\<close> with its
  CR LF, arriving while the next payload is written, fills the reply slot with its last
  byte, 10: the first poll reads it and the call ends in "Did not receive expected
  checksum.", before the checksum that the transport delivers during the second poll.
\<close>

theorem send_message_echo_lost:
  "xor_fold [5, 9] = 12 \<and>
   fst (send_message (\<lambda>t. if t = 1 then [Notify [12]] else []) init_receiver [5, 9])
     = Some ChecksumTimeout \<and>
   state (snd (send_message (\<lambda>t. if t = 1 then [Notify [12]] else []) init_receiver [5, 9]))
     = CHECKING \<and>
   buf (snd (send_message (\<lambda>t. if t = 1 then [Notify [12]] else []) init_receiver [5, 9]))
     = [12] \<and>
   state (snd (send_message (\<lambda>t. []) init_receiver [5, 9])) = CHECKING \<and>
   reply (snd (send_message (\<lambda>t. []) init_receiver [5, 9])) = None \<and>
   tick (snd (send_message (\<lambda>t. []) init_receiver [5, 9])) = 52 \<and>
   send_message (\<lambda>t. if t = 52 then [Notify [111, 107, 13, 10]]
                      else if t = 55 then [Notify [12]] else [])
       (snd (send_message (\<lambda>t. []) init_receiver [5, 9])) [5, 9]
     = (Some ChecksumMismatch,
        (snd (send_message (\<lambda>t. []) init_receiver [5, 9]))
          \<lparr>state := IDLE,
           events := events (snd (send_message (\<lambda>t. []) init_receiver [5, 9])) @
                     [Slept 50, Wrote [5, 9], Slept 10, NewState IDLE, Checked 12 (Some 10)],
           tick := 55\<rparr>)"
  by (simp add: run_defs chunks_single eval_nat_numeral lines_loop.simps)

end
